theory Spec2Isabelle
  imports Complex_Main "HOL-Library.Log_Nat"
begin

section \<open>The windowed PDF reading engine of KindleWood\<close>

text \<open>
  A shallow embedding of the reader's core (\<^verbatim>\<open>PDFReader\<close>, \<^verbatim>\<open>StickyNote\<close> and
  \<^verbatim>\<open>updateBookmarks\<close> of the application's main component). Page numbers are
  JavaScript numbers holding integers and are modelled as \<^typ>\<open>int\<close>. Visibility
  ratios, zoom scales, page dimensions and pointer coordinates are finite doubles. A
  finite double is modelled by the rational it denotes, and an arithmetic operation
  of the source by the operation of doubles: the exact result, rounded to the nearest
  double.
\<close>

subsection \<open>Render window\<close>

text \<open>\<^verbatim>\<open>const PDF_RENDER_BUFFER = 2;\<close>\<close>

definition PDF_RENDER_BUFFER :: int where
  "PDF_RENDER_BUFFER = 2"

text \<open>
  A JavaScript \<^verbatim>\<open>Set\<close> keeps its members in insertion order and ignores the
  insertion of a member it already has: a duplicate-free list.
\<close>

definition set_add :: "int \<Rightarrow> int list \<Rightarrow> int list" where
  "set_add i s = (if i \<in> set s then s else s @ [i])"

text \<open>\<^verbatim>\<open>for (let i = start; i <= end; i++) set.add(i);\<close>\<close>

function add_pages :: "int \<Rightarrow> int \<Rightarrow> int list \<Rightarrow> int list" where
  "add_pages i end s = (if i \<le> end then add_pages (i + 1) end (set_add i s) else s)"
  by pat_completeness auto
termination
  by (relation "measure (\<lambda>(i, end, s). nat (end + 1 - i))") auto

text \<open>
  The body of the \<^verbatim>\<open>renderedPages\<close> memo, with the buffer radius as a parameter.
  \<^verbatim>\<open>numPages\<close> is \<^verbatim>\<open>null\<close> until the document has loaded; \<^verbatim>\<open>!numPages\<close> holds
  for \<^verbatim>\<open>null\<close> and for \<open>0\<close>.
\<close>

definition window_of :: "int \<Rightarrow> int option \<Rightarrow> int \<Rightarrow> int list" where
  "window_of buffer numPages currentPage =
     (case numPages of
        None \<Rightarrow> []
      | Some n \<Rightarrow>
          if n = 0 then []
          else
            let start = max 1 (currentPage - buffer);
                end = min n (currentPage + buffer)
            in add_pages start end [])"

definition renderedPages :: "int option \<Rightarrow> int \<Rightarrow> int list" where
  "renderedPages numPages currentPage = window_of PDF_RENDER_BUFFER numPages currentPage"

subsection \<open>Double arithmetic\<close>

text \<open>
  A JavaScript number: a finite double, given by the rational it denotes, an infinity
  or NaN. The two zeros are not told apart; a zero divisor is the positive zero (the
  divisors of the source are widths and heights of client rectangles).
\<close>

datatype jsnum = Fin rat | PosInf | NegInf | NaN

definition pow2 :: "int \<Rightarrow> rat" where
  "pow2 e = (if 0 \<le> e then 2 ^ nat e else 1 / 2 ^ nat (- e))"

text \<open>The exponent \<open>e\<close> of a positive \<open>x\<close>: \<open>pow2 e \<le> x < pow2 (e + 1)\<close>.\<close>

definition binary_exponent :: "rat \<Rightarrow> int" where
  "binary_exponent x =
     (if 1 \<le> x then bitlen \<lfloor>x\<rfloor> - 1 else - bitlen (\<lceil>1 / x\<rceil> - 1))"

text \<open>The nearest integer, the even one of two equally near.\<close>

definition round_half_even :: "rat \<Rightarrow> int" where
  "round_half_even q =
     (let f = \<lfloor>q\<rfloor>; r = q - of_int f in
      if r < 1 / 2 then f else if 1 / 2 < r then f + 1 else if even f then f else f + 1)"

text \<open>
  Rounding to binary64, to nearest with ties to even: 53 significant bits, so the
  spacing of the doubles around \<open>x\<close> is \<open>pow2 (e - 52)\<close> for the exponent \<open>e\<close> of
  \<open>x\<close>, and for the least exponent \<open>- 1022\<close> below it (the subnormal numbers).
  \<open>to_double\<close> is the rounding with no upper end of the exponent range; \<open>fl\<close> gives an
  infinity from \<open>pow2 1024\<close> on.
\<close>

definition to_double :: "rat \<Rightarrow> rat" where
  "to_double x =
     (if x = 0 then 0
      else
        let e = max (binary_exponent \<bar>x\<bar>) (- 1022);
            ulp = pow2 (e - 52)
        in of_int (round_half_even (x / ulp)) * ulp)"

definition fl :: "rat \<Rightarrow> jsnum" where
  "fl x =
     (let y = to_double x in
      if pow2 1024 \<le> y then PosInf else if y \<le> - pow2 1024 then NegInf else Fin y)"

definition inf_of :: "rat \<Rightarrow> jsnum" where
  "inf_of a = (if 0 < a then PosInf else if a < 0 then NegInf else NaN)"

fun sign_of :: "jsnum \<Rightarrow> rat" where
  "sign_of (Fin a) = sgn a"
| "sign_of PosInf = 1"
| "sign_of NegInf = - 1"
| "sign_of NaN = 0"

text \<open>The operators \<^verbatim>\<open>/\<close>, \<^verbatim>\<open>*\<close> and \<^verbatim>\<open>+\<close> on numbers.\<close>

fun js_div :: "jsnum \<Rightarrow> jsnum \<Rightarrow> jsnum" where
  "js_div NaN y = NaN"
| "js_div x NaN = NaN"
| "js_div (Fin a) (Fin b) = (if b \<noteq> 0 then fl (a / b) else inf_of a)"
| "js_div (Fin a) y = Fin 0"
| "js_div x (Fin b) = inf_of (sign_of x * (if b < 0 then - 1 else 1))"
| "js_div x y = NaN"

fun js_mul :: "jsnum \<Rightarrow> jsnum \<Rightarrow> jsnum" where
  "js_mul NaN y = NaN"
| "js_mul x NaN = NaN"
| "js_mul (Fin a) (Fin b) = fl (a * b)"
| "js_mul x y = inf_of (sign_of x * sign_of y)"

fun js_add :: "jsnum \<Rightarrow> jsnum \<Rightarrow> jsnum" where
  "js_add NaN y = NaN"
| "js_add x NaN = NaN"
| "js_add (Fin a) (Fin b) = fl (a + b)"
| "js_add (Fin a) y = y"
| "js_add x (Fin b) = x"
| "js_add x y = (if x = y then x else NaN)"

text \<open>\<^verbatim>\<open>Math.min\<close> and \<^verbatim>\<open>Math.max\<close> of two numbers: NaN when either is.\<close>

fun js_min :: "jsnum \<Rightarrow> jsnum \<Rightarrow> jsnum" where
  "js_min NaN y = NaN"
| "js_min x NaN = NaN"
| "js_min NegInf y = NegInf"
| "js_min x NegInf = NegInf"
| "js_min PosInf y = y"
| "js_min x PosInf = x"
| "js_min (Fin a) (Fin b) = Fin (min a b)"

fun js_max :: "jsnum \<Rightarrow> jsnum \<Rightarrow> jsnum" where
  "js_max NaN y = NaN"
| "js_max x NaN = NaN"
| "js_max PosInf y = PosInf"
| "js_max x PosInf = PosInf"
| "js_max NegInf y = y"
| "js_max x NegInf = x"
| "js_max (Fin a) (Fin b) = Fin (max a b)"

text \<open>
  \<^verbatim>\<open>Math.round\<close>: the nearest integer, the larger of two equally near; an infinity
  and NaN are returned as they are.
\<close>

definition math_round :: "rat \<Rightarrow> int" where
  "math_round x = \<lfloor>x + 1 / 2\<rfloor>"

fun js_round :: "jsnum \<Rightarrow> jsnum" where
  "js_round (Fin x) = Fin (of_int (math_round x))"
| "js_round x = x"

subsection \<open>The reader's state\<close>

text \<open>
  \<^verbatim>\<open>ratioMapRef.current\<close> is a plain object keyed by the page numbers of the page
  slots (\<^verbatim>\<open>entry.target.dataset.page\<close>, the positive integers \<open>1..numPages\<close>).
  \<^verbatim>\<open>Object.entries\<close> enumerates such integer keys in ascending order, whatever the
  order of their insertion: the map is the list of its entries in that order.
\<close>

type_synonym ratio_map = "(int \<times> rat) list"

record dims =
  width :: rat
  height :: rat

text \<open>
  \<^verbatim>\<open>{ id, page, xPct, yPct, content }\<close>. The percentages are JavaScript numbers that
  a drag computes with a division, so they range over the doubles with their
  infinities and NaN.
\<close>

record sticky_note =
  note_id :: string
  note_page :: int
  xPct :: jsnum
  yPct :: jsnum
  content :: string

text \<open>
  The state of \<^verbatim>\<open>PDFReader\<close>: its \<^verbatim>\<open>useState\<close> cells and its two refs.
  \<^verbatim>\<open>ioThrottleRef.current\<close> is \<^verbatim>\<open>null\<close> or the handle of the pending timer; the
  handle is modelled by the time, in milliseconds, from which the timer may fire.
\<close>

record reader =
  numPages :: "int option"
  currentPage :: int
  scale :: rat
  baseDims :: dims
  stickyNotes :: "sticky_note list"
  ratioMapRef :: ratio_map
  ioThrottleRef :: "nat option"

text \<open>
  The initial values of the state cells; the initial scale is the double \<^verbatim>\<open>0.6\<close> on
  a window narrower than 640 pixels and the double \<^verbatim>\<open>1.2\<close> otherwise.
\<close>

definition initial_reader :: "bool \<Rightarrow> reader" where
  "initial_reader narrow =
     \<lparr>numPages = None, currentPage = 1,
      scale = (if narrow then to_double (6 / 10) else to_double (12 / 10)),
      baseDims = \<lparr>width = 612, height = 792\<rparr>,
      stickyNotes = [], ratioMapRef = [], ioThrottleRef = None\<rparr>"

subsection \<open>Visibility resolver\<close>

text \<open>\<^verbatim>\<open>ratioMapRef.current[page] = ratio\<close>\<close>

fun put_ratio :: "int \<Rightarrow> rat \<Rightarrow> ratio_map \<Rightarrow> ratio_map" where
  "put_ratio page ratio [] = [(page, ratio)]"
| "put_ratio page ratio ((p, r) # m) =
     (if page = p then (p, ratio) # m
      else if page < p then (page, ratio) # (p, r) # m
      else (p, r) # put_ratio page ratio m)"

text \<open>
  Step 1 of the observer callback: every entry of the batch, a page with its
  intersection ratio, is written into the map, in the order of the batch.
\<close>

fun merge_entries :: "(int \<times> rat) list \<Rightarrow> ratio_map \<Rightarrow> ratio_map" where
  "merge_entries [] m = m"
| "merge_entries ((page, ratio) # entries) m = merge_entries entries (put_ratio page ratio m)"

text \<open>
  Step 3 of the timer callback, the loop over \<^verbatim>\<open>Object.entries(ratioMapRef.current)\<close>
  with its two variables \<^verbatim>\<open>bestPage\<close> (initially \<^verbatim>\<open>null\<close>) and \<^verbatim>\<open>bestRatio\<close>
  (initially 0).
\<close>

fun scan :: "int option \<Rightarrow> rat \<Rightarrow> ratio_map \<Rightarrow> int option \<times> rat" where
  "scan bestPage bestRatio [] = (bestPage, bestRatio)"
| "scan bestPage bestRatio ((page, ratio) # m) =
     (if ratio > bestRatio then scan (Some page) ratio m else scan bestPage bestRatio m)"

text \<open>
  The timer callback: it clears the timer handle, scans the whole map and commits the
  winner when its ratio is above \<open>0.6\<close>.
\<close>

definition commit :: "reader \<Rightarrow> reader" where
  "commit s =
     (let s1 = s\<lparr>ioThrottleRef := None\<rparr> in
      case scan None 0 (ratioMapRef s1) of
        (None, bestRatio) \<Rightarrow> s1
      | (Some bestPage, bestRatio) \<Rightarrow>
          if bestRatio > 6 / 10 then s1\<lparr>currentPage := bestPage\<rparr> else s1)"

text \<open>
  The observer callback at the time \<open>now\<close>: merge the batch, then schedule the timer
  callback 100 ms later unless one is pending.
\<close>

definition observe :: "nat \<Rightarrow> (int \<times> rat) list \<Rightarrow> reader \<Rightarrow> reader" where
  "observe now entries s =
     (let s1 = s\<lparr>ratioMapRef := merge_entries entries (ratioMapRef s)\<rparr> in
      if ioThrottleRef s1 \<noteq> None then s1
      else s1\<lparr>ioThrottleRef := Some (now + 100)\<rparr>)"

text \<open>
  The events of the resolver, each with the time at which it happens: a batch of the
  observer, the firing of the timer, and the cleanup of the effect (which disconnects
  the observer and clears a pending timer). The effect creates the observer only when
  \<^verbatim>\<open>numPages\<close> is truthy; a timer fires only when it is pending and its delay has
  passed. An event that cannot happen in a state leaves the state as it is.
\<close>

datatype event =
  Batch nat "(int \<times> rat) list"
| TimerFire nat
| Cleanup nat

definition observing :: "reader \<Rightarrow> bool" where
  "observing s = (case numPages s of None \<Rightarrow> False | Some n \<Rightarrow> n \<noteq> 0)"

definition due_at :: "reader \<Rightarrow> nat \<Rightarrow> bool" where
  "due_at s now = (case ioThrottleRef s of None \<Rightarrow> False | Some due \<Rightarrow> due \<le> now)"

fun step :: "reader \<Rightarrow> event \<Rightarrow> reader" where
  "step s (Batch now entries) = (if observing s then observe now entries s else s)"
| "step s (TimerFire now) = (if due_at s now then commit s else s)"
| "step s (Cleanup now) = s\<lparr>ioThrottleRef := None\<rparr>"

fun run :: "reader \<Rightarrow> event list \<Rightarrow> reader" where
  "run s [] = s"
| "run s (e # evs) = run (step s e) evs"

text \<open>The times at which the timer callback runs, that is, at which a decision is made.\<close>

fun decisions :: "reader \<Rightarrow> event list \<Rightarrow> nat list" where
  "decisions s [] = []"
| "decisions s (TimerFire now # evs) =
     (if due_at s now then now # decisions (step s (TimerFire now)) evs
      else decisions (step s (TimerFire now)) evs)"
| "decisions s (e # evs) = decisions (step s e) evs"

fun time_of :: "event \<Rightarrow> nat" where
  "time_of (Batch now entries) = now"
| "time_of (TimerFire now) = now"
| "time_of (Cleanup now) = now"

fun is_batch :: "event \<Rightarrow> bool" where
  "is_batch (Batch now entries) = True"
| "is_batch e = False"

text \<open>Events in the order of their times, none before \<open>now\<close>.\<close>

fun chronological :: "nat \<Rightarrow> event list \<Rightarrow> bool" where
  "chronological now [] = True"
| "chronological now (e # evs) = (now \<le> time_of e \<and> chronological (time_of e) evs)"

text \<open>Successive times at least 100 ms apart.\<close>

fun spaced :: "nat list \<Rightarrow> bool" where
  "spaced (a # b # ts) = (a + 100 \<le> b \<and> spaced (b # ts))"
| "spaced ts = True"

text \<open>
  At every firing of the timer in the run of \<open>evs\<close> from \<open>s\<close>, no stored ratio is
  above \<open>0.6\<close>.
\<close>

fun contested :: "reader \<Rightarrow> event list \<Rightarrow> bool" where
  "contested s [] = True"
| "contested s (TimerFire now # evs) =
     ((due_at s now \<longrightarrow> list_all (\<lambda>(p, r). r \<le> 6 / 10) (ratioMapRef s))
      \<and> contested (step s (TimerFire now)) evs)"
| "contested s (e # evs) = contested (step s e) evs"

subsection \<open>Zoom and placeholders\<close>

text \<open>
  \<^verbatim>\<open>+x.toFixed(1)\<close>: the decimal with one digit nearest to the double \<open>x\<close> (the
  larger one of two equally near, taken of the absolute value for a negative \<open>x\<close>),
  read back as a double.
\<close>

definition toFixed1 :: "rat \<Rightarrow> rat" where
  "toFixed1 x =
     (if x < 0 then to_double (- (of_int \<lfloor>- x * 10 + 1 / 2\<rfloor> / 10))
      else to_double (of_int \<lfloor>x * 10 + 1 / 2\<rfloor> / 10))"

text \<open>
  The zoom buttons:
  \<^verbatim>\<open>setScale((s) => Math.max(0.5, +(s - 0.2).toFixed(1)))\<close> and
  \<^verbatim>\<open>setScale((s) => Math.min(3, +(s + 0.2).toFixed(1)))\<close>,
  with the double \<^verbatim>\<open>0.2\<close> and the subtraction and addition of doubles (a scale is
  far from the ends of the exponent range).
\<close>

definition zoom_out :: "reader \<Rightarrow> reader" where
  "zoom_out s =
     s\<lparr>scale := max (1 / 2) (toFixed1 (to_double (scale s - to_double (2 / 10))))\<rparr>"

definition zoom_in :: "reader \<Rightarrow> reader" where
  "zoom_in s =
     s\<lparr>scale := min 3 (toFixed1 (to_double (scale s + to_double (2 / 10))))\<rparr>"

text \<open>
  \<^verbatim>\<open>Math.round(baseDims.width * scale)\<close> and \<^verbatim>\<open>Math.round(baseDims.height * scale)\<close>
\<close>

definition placeholderW :: "reader \<Rightarrow> jsnum" where
  "placeholderW s = js_round (js_mul (Fin (width (baseDims s))) (Fin (scale s)))"

definition placeholderH :: "reader \<Rightarrow> jsnum" where
  "placeholderH s = js_round (js_mul (Fin (height (baseDims s))) (Fin (scale s)))"

text \<open>
  What a page slot holds, as far as layout goes: its \<^verbatim>\<open>data-page\<close> attribute, the
  \<^verbatim>\<open>width\<close> and \<^verbatim>\<open>height\<close> of its style in pixels (\<^verbatim>\<open>undefined\<close> for a rendered
  page, whose size is that of its content), the mounted \<^verbatim>\<open><Page>\<close> with its page
  number and scale, and the sticky notes of the page.
\<close>

record slot =
  data_page :: int
  slot_width :: "jsnum option"
  slot_height :: "jsnum option"
  slot_page :: "(int \<times> rat) option"
  slot_notes :: "sticky_note list"

definition page_slot :: "reader \<Rightarrow> int \<Rightarrow> slot" where
  "page_slot s pageNum =
     (let isRendered = (pageNum \<in> set (renderedPages (numPages s) (currentPage s))) in
      \<lparr>data_page = pageNum,
       slot_width = (if isRendered then None else Some (placeholderW s)),
       slot_height = (if isRendered then None else Some (placeholderH s)),
       slot_page = (if isRendered then Some (pageNum, scale s) else None),
       slot_notes = filter (\<lambda>n. note_page n = pageNum) (stickyNotes s)\<rparr>)"

text \<open>
  \<^verbatim>\<open>numPages && Array.from({ length: numPages }, (_, i) => i + 1).map(...)\<close>
\<close>

definition page_slots :: "reader \<Rightarrow> slot list" where
  "page_slots s =
     (case numPages s of
        None \<Rightarrow> []
      | Some n \<Rightarrow> if n = 0 then [] else map (page_slot s) [1..n])"

text \<open>
  The pages the observer observes. The effect creates the observer when \<^verbatim>\<open>numPages\<close>
  is truthy and lets it observe every element of \<^verbatim>\<open>pageRefs.current\<close>; every page
  slot, rendered or not, has put itself there through its \<^verbatim>\<open>ref\<close>. An entry of a
  batch names the \<^verbatim>\<open>data-page\<close> of an observed slot.
\<close>

definition observed_pages :: "reader \<Rightarrow> int list" where
  "observed_pages s = map data_page (page_slots s)"

text \<open>Every batch of the events reports pages among \<open>pages\<close> only.\<close>

fun reported :: "int list \<Rightarrow> event list \<Rightarrow> bool" where
  "reported pages [] = True"
| "reported pages (Batch now entries # evs) =
     (list_all (\<lambda>(p, r). p \<in> set pages) entries \<and> reported pages evs)"
| "reported pages (e # evs) = reported pages evs"

subsection \<open>Sticky notes\<close>

text \<open>
  The argument of \<^verbatim>\<open>onUpdate\<close>: an object with some of the keys \<^verbatim>\<open>xPct\<close>,
  \<^verbatim>\<open>yPct\<close> and \<^verbatim>\<open>content\<close> (the two callers pass no other key).
\<close>

record changes =
  ch_xPct :: "jsnum option"
  ch_yPct :: "jsnum option"
  ch_content :: "string option"

text \<open>
  \<^verbatim>\<open>onMouseMove\<close> of a drag session that began with the pointer at
  \<open>(startMouseX, startMouseY)\<close> on a note at \<open>(startXPct, startYPct)\<close>: the pointer is
  now at \<open>(clientX, clientY)\<close> and \<open>rect\<close> is the client rectangle of the page wrapper.
\<close>

definition onMouseMove ::
  "rat \<Rightarrow> rat \<Rightarrow> jsnum \<Rightarrow> jsnum \<Rightarrow> rat \<Rightarrow> rat \<Rightarrow> dims \<Rightarrow> changes" where
  "onMouseMove startMouseX startMouseY startXPct startYPct clientX clientY rect =
     (let dxPct = js_mul (js_div (fl (clientX - startMouseX)) (Fin (width rect))) (Fin 100);
          dyPct = js_mul (js_div (fl (clientY - startMouseY)) (Fin (height rect))) (Fin 100)
      in \<lparr>ch_xPct = Some (js_max (Fin 0) (js_min (Fin 95) (js_add startXPct dxPct))),
          ch_yPct = Some (js_max (Fin 0) (js_min (Fin 95) (js_add startYPct dyPct))),
          ch_content = None\<rparr>)"

text \<open>\<^verbatim>\<open>handleSave\<close>: \<^verbatim>\<open>onUpdate({ content: draft })\<close>\<close>

definition handleSave :: "string \<Rightarrow> changes" where
  "handleSave draft = \<lparr>ch_xPct = None, ch_yPct = None, ch_content = Some draft\<rparr>"

text \<open>\<^verbatim>\<open>{ ...n, ...changes }\<close>\<close>

definition spread :: "sticky_note \<Rightarrow> changes \<Rightarrow> sticky_note" where
  "spread n c =
     n\<lparr>xPct := (case ch_xPct c of None \<Rightarrow> xPct n | Some x \<Rightarrow> x),
       yPct := (case ch_yPct c of None \<Rightarrow> yPct n | Some y \<Rightarrow> y),
       content := (case ch_content c of None \<Rightarrow> content n | Some t \<Rightarrow> t)\<rparr>"

text \<open>
  \<^verbatim>\<open>updateNote\<close>: the new list of notes, and the update sent to the store (the
  payload carries the keys of the change; no update is sent for an empty payload).
\<close>

definition updateNote ::
  "string \<Rightarrow> changes \<Rightarrow> sticky_note list \<Rightarrow> sticky_note list \<times> (string \<times> changes) option" where
  "updateNote ident c prev =
     (map (\<lambda>n. if note_id n = ident then spread n c else n) prev,
      if ch_xPct c = None \<and> ch_yPct c = None \<and> ch_content c = None then None
      else Some (ident, c))"

text \<open>
  The position style of a note: \<^verbatim>\<open>left: `${note.xPct}%`\<close> and
  \<^verbatim>\<open>top: `${note.yPct}%`\<close>, in a box positioned absolutely in the page wrapper.
\<close>

record note_style =
  left_pct :: jsnum
  top_pct :: jsnum

definition position_style :: "sticky_note \<Rightarrow> note_style" where
  "position_style n = \<lparr>left_pct = xPct n, top_pct = yPct n\<rparr>"

text \<open>
  Modelled from the spec: the pixel position at which a note appears. No code of the
  repository computes it: the source emits the two percentages as the style above, and
  the layout of the browser, which is not part of the repository, resolves them
  against the page wrapper (\<^verbatim>\<open>position: relative\<close>). The spec, section 3: "pixel
  position is always percentage x currentPageRenderedSize(scale)", a percentage \<open>p\<close>
  being the fraction \<open>p / 100\<close> of the rendered width or height of the page. A
  percentage that is no finite number gives no position.
\<close>

definition css_percentage :: "jsnum \<Rightarrow> rat \<Rightarrow> rat option" where
  "css_percentage p extent = (case p of Fin q \<Rightarrow> Some (q / 100 * extent) | _ \<Rightarrow> None)"

text \<open>
  Modelled from the spec: the pixel position of a note on a page of the rendered size
  \<open>rendered\<close>, the style of the source resolved as above.
\<close>

definition pixel_position :: "sticky_note \<Rightarrow> dims \<Rightarrow> rat option \<times> rat option" where
  "pixel_position n rendered =
     (css_percentage (left_pct (position_style n)) (width rendered),
      css_percentage (top_pct (position_style n)) (height rendered))"

subsection \<open>Bookmarks\<close>

text \<open>
  \<^verbatim>\<open>toggleBookmark\<close>, the updater it passes to \<^verbatim>\<open>onUpdateBookmarks\<close>:
  \<^verbatim>\<open>prev.includes(currentPage) ? prev.filter((p) => p !== currentPage)
     : [...prev, currentPage].sort((a, b) => a - b)\<close>
\<close>

definition toggleBookmark :: "int \<Rightarrow> int list \<Rightarrow> int list" where
  "toggleBookmark cur prev =
     (if cur \<in> set prev then filter (\<lambda>p. p \<noteq> cur) prev else sort (prev @ [cur]))"

text \<open>
  \<^verbatim>\<open>removeBookmark\<close>, the updater of the bookmark panel:
  \<^verbatim>\<open>prev.filter((p) => p !== page)\<close>
\<close>

definition removeBookmark :: "int \<Rightarrow> int list \<Rightarrow> int list" where
  "removeBookmark pg prev = filter (\<lambda>p. p \<noteq> pg) prev"

text \<open>The requests to the store: an insert carries the user, the book and the page.\<close>

datatype store_request =
  InsertBookmark string string int
| DeleteBookmark string int

text \<open>
  \<^verbatim>\<open>updateBookmarks\<close> for the user \<open>user\<close>: the new bookmarks of all books, and the
  requests it sends, the inserts first.
\<close>

definition updateBookmarks ::
  "string \<Rightarrow> string \<Rightarrow> (int list \<Rightarrow> int list) \<Rightarrow> (string \<rightharpoonup> int list)
     \<Rightarrow> (string \<rightharpoonup> int list) \<times> store_request list" where
  "updateBookmarks user bookId updater prev =
     (let oldPages = (case prev bookId of None \<Rightarrow> [] | Some ps \<Rightarrow> ps);
          newPages = updater oldPages;
          added = filter (\<lambda>p. p \<notin> set oldPages) newPages;
          removed = filter (\<lambda>p. p \<notin> set newPages) oldPages
      in (prev(bookId \<mapsto> newPages),
          map (InsertBookmark user bookId) added @ map (DeleteBookmark bookId) removed))"

subsection \<open>Example states and runs\<close>

text \<open>A reader whose document of \<open>n\<close> pages has loaded, showing the page \<open>cur\<close>.\<close>

definition loaded_reader :: "int \<Rightarrow> int \<Rightarrow> reader" where
  "loaded_reader n cur = (initial_reader False)\<lparr>numPages := Some n, currentPage := cur\<rparr>"

text \<open>Two pages sharing the viewport, their ratios swinging between 0.45 and 0.55.\<close>

definition oscillation :: "event list" where
  "oscillation =
     [Batch 0 [(4, 45 / 100), (5, 55 / 100)], TimerFire 100,
      Batch 130 [(4, 55 / 100), (5, 45 / 100)], Batch 170 [(4, 45 / 100), (5, 55 / 100)],
      TimerFire 230,
      Batch 260 [(4, 55 / 100), (5, 45 / 100)], TimerFire 360]"

text \<open>
  A reading session on a 10-page document: the observer's first report of all the
  page slots it observes, a jump to page 8, and a jump back to page 1.
\<close>

definition first_report :: "event list" where
  "first_report =
     [Batch 0 [(1, 1), (2, 3 / 10), (3, 0), (4, 0), (5, 0), (6, 0), (7, 0), (8, 0),
        (9, 0), (10, 0)],
      TimerFire 100]"

definition jump_to_8 :: "event list" where
  "jump_to_8 = [Batch 2000 [(1, 0), (2, 0), (7, 2 / 10), (8, 9 / 10)], TimerFire 2100]"

definition back_to_1 :: "event list" where
  "back_to_1 = [Batch 5000 [(7, 0), (8, 0), (1, 1), (2, 3 / 10)], TimerFire 5100]"

text \<open>A burst of batches, with the timer firings between them.\<close>

definition burst :: "event list" where
  "burst =
     [Batch 0 [(1, 1)], Batch 10 [(1, 9 / 10), (2, 1 / 10)], Batch 20 [(1, 8 / 10), (2, 2 / 10)],
      TimerFire 100,
      Batch 105 [(1, 3 / 10), (2, 7 / 10)], Batch 110 [(1, 2 / 10), (2, 8 / 10)],
      TimerFire 205, TimerFire 400]"

text \<open>
  A 10-page document of pages 645 by 855 on a narrow window, zoomed out and in once:
  the scale goes from 0.6 to 0.5 and to 0.7.
\<close>

definition small_page_reader :: reader where
  "small_page_reader =
     zoom_in (zoom_out ((initial_reader True)
       \<lparr>numPages := Some 10, baseDims := \<lparr>width = 645, height = 855\<rparr>\<rparr>))"

text \<open>A note at 10% and 20% of its page, and a list of two notes.\<close>

definition example_note :: sticky_note where
  "example_note = \<lparr>note_id = ''n1'', note_page = 3, xPct = Fin 10, yPct = Fin 20, content = ''''\<rparr>"

definition example_notes :: "sticky_note list" where
  "example_notes =
     [\<lparr>note_id = ''a'', note_page = 3, xPct = Fin 10, yPct = Fin 20, content = ''first''\<rparr>,
      \<lparr>note_id = ''b'', note_page = 3, xPct = Fin 5, yPct = Fin 5, content = ''''\<rparr>]"

subsection \<open>Facts about the render window\<close>

lemma add_pages_upto:
  "\<forall>x \<in> set s. x < i \<Longrightarrow> add_pages i end s = s @ [i..end]"
proof (induction i "end" s rule: add_pages.induct)
  case (1 i "end" s)
  show ?case
  proof (cases "i \<le> end")
    case True
    have fresh: "set_add i s = s @ [i]"
      using "1.prems" by (auto simp: set_add_def)
    have "\<forall>x \<in> set (set_add i s). x < i + 1"
      using "1.prems" by (auto simp: fresh)
    with "1.IH" True have "add_pages (i + 1) end (set_add i s) = set_add i s @ [i + 1..end]"
      by blast
    with True show ?thesis
      by (subst add_pages.simps) (simp add: fresh upto_rec1 [of i "end"])
  next
    case False
    then show ?thesis
      by (subst add_pages.simps) simp
  qed
qed

lemma window_of_upto:
  "n \<noteq> 0 \<Longrightarrow>
   window_of buffer (Some n) cur =
     [max 1 (cur - buffer)..min n (cur + buffer)]"
  using add_pages_upto [of "[]"] by (simp add: window_of_def Let_def)

text \<open>
  C4. For every current page within the document and a buffer radius \<open>R \<ge> 0\<close>, the
  rendered pages are the contiguous range from \<open>max 1 (cur - R)\<close> to
  \<open>min pageCount (cur + R)\<close>; the range contains the current page and has at
  most \<open>2 R + 1\<close> members.
\<close>

theorem render_window_invariant:
  assumes "1 \<le> cur" and "cur \<le> pageCount" and "0 \<le> R"
  shows "window_of R (Some pageCount) cur =
           [max 1 (cur - R)..min pageCount (cur + R)]
         \<and> cur \<in> set (window_of R (Some pageCount) cur)
         \<and> int (length (window_of R (Some pageCount) cur)) \<le> 2 * R + 1"
proof -
  have n0: "pageCount \<noteq> 0"
    using assms by linarith
  have eq: "window_of R (Some pageCount) cur =
      [max 1 (cur - R)..min pageCount (cur + R)]"
    by (rule window_of_upto [OF n0])
  have mem: "cur \<in> set (window_of R (Some pageCount) cur)"
    using assms by (simp add: eq)
  have len: "int (length (window_of R (Some pageCount) cur)) \<le> 2 * R + 1"
    using assms by (simp add: eq)
  from eq mem len show ?thesis
    by blast
qed

theorem render_window_invariant_witness:
  "renderedPages (Some 10) 7 = [5, 6, 7, 8, 9]
   \<and> 7 \<in> set (renderedPages (Some 10) 7)
   \<and> int (length (renderedPages (Some 10) 7)) \<le> 2 * PDF_RENDER_BUFFER + 1"
  using render_window_invariant [of 7 10 PDF_RENDER_BUFFER]
  by (simp add: renderedPages_def PDF_RENDER_BUFFER_def upto.simps)

text \<open>
  C3 (as stated it fails). On a 10-page document with the current page 1 and the
  radius 2 the window is the three pages 1, 2, 3, not \<open>min (2 R + 1) pageCount = 5\<close>
  pages: the window shrinks at a document boundary.
\<close>

theorem render_window_size_counterexample:
  "renderedPages (Some 10) 1 = [1, 2, 3]
   \<and> int (length (renderedPages (Some 10) 1)) \<noteq> min (2 * PDF_RENDER_BUFFER + 1) 10"
  by (simp add: renderedPages_def PDF_RENDER_BUFFER_def window_of_upto upto.simps)

text \<open>
  C3 (amended). With no document, or a document of no pages, the window is empty.
  For a current page within the document and a radius \<open>R \<ge> 0\<close> the window is the
  contiguous range from \<open>max 1 (cur - R)\<close> to \<open>min pageCount (cur + R)\<close>:
  it contains the current page, lies within \<open>1..pageCount\<close>, and its size
  \<open>min pageCount (cur + R) - max 1 (cur - R) + 1\<close> is at most
  \<open>min (2 R + 1) pageCount\<close>, and is \<open>2 R + 1\<close> when the current page is at least
  \<open>R\<close> pages away from both ends.
\<close>

theorem render_window_clamped:
  "window_of R None cur = []
   \<and> window_of R (Some 0) cur = []
   \<and> (1 \<le> cur \<and> cur \<le> pageCount \<and> 0 \<le> R \<longrightarrow>
        window_of R (Some pageCount) cur =
          [max 1 (cur - R)..min pageCount (cur + R)]
        \<and> cur \<in> set (window_of R (Some pageCount) cur)
        \<and> set (window_of R (Some pageCount) cur) \<subseteq> {1..pageCount}
        \<and> int (length (window_of R (Some pageCount) cur)) =
            min pageCount (cur + R) - max 1 (cur - R) + 1
        \<and> int (length (window_of R (Some pageCount) cur)) \<le> min (2 * R + 1) pageCount
        \<and> (R < cur \<and> cur + R \<le> pageCount \<longrightarrow>
             int (length (window_of R (Some pageCount) cur)) = 2 * R + 1))"
proof -
  have none: "window_of R None cur = []"
    by (simp add: window_of_def)
  have zero: "window_of R (Some 0) cur = []"
    by (simp add: window_of_def)
  have inside: "window_of R (Some pageCount) cur =
          [max 1 (cur - R)..min pageCount (cur + R)]
        \<and> cur \<in> set (window_of R (Some pageCount) cur)
        \<and> set (window_of R (Some pageCount) cur) \<subseteq> {1..pageCount}
        \<and> int (length (window_of R (Some pageCount) cur)) =
            min pageCount (cur + R) - max 1 (cur - R) + 1
        \<and> int (length (window_of R (Some pageCount) cur)) \<le> min (2 * R + 1) pageCount
        \<and> (R < cur \<and> cur + R \<le> pageCount \<longrightarrow>
             int (length (window_of R (Some pageCount) cur)) = 2 * R + 1)"
    if h: "1 \<le> cur" "cur \<le> pageCount" "0 \<le> R"
  proof -
    have n0: "pageCount \<noteq> 0"
      using h by linarith
    note eq = window_of_upto [OF n0, of R cur]
    have mem: "cur \<in> set (window_of R (Some pageCount) cur)"
      using h by (simp add: eq)
    have sub: "set (window_of R (Some pageCount) cur) \<subseteq> {1..pageCount}"
      by (auto simp: eq)
    have len: "int (length (window_of R (Some pageCount) cur)) =
        min pageCount (cur + R) - max 1 (cur - R) + 1"
      using h by (simp add: eq)
    have le: "int (length (window_of R (Some pageCount) cur)) \<le> min (2 * R + 1) pageCount"
      using h unfolding len by linarith
    have full: "R < cur \<and> cur + R \<le> pageCount \<longrightarrow>
        int (length (window_of R (Some pageCount) cur)) = 2 * R + 1"
      using h unfolding len by linarith
    from eq mem sub len le full show ?thesis
      by blast
  qed
  from none zero inside show ?thesis
    by blast
qed

theorem render_window_clamped_witness:
  "renderedPages None 1 = []
   \<and> renderedPages (Some 10) 1 = [1, 2, 3]
   \<and> 1 \<in> set (renderedPages (Some 10) 1)
   \<and> set (renderedPages (Some 10) 1) \<subseteq> {1..10}
   \<and> int (length (renderedPages (Some 10) 1)) = 3
   \<and> int (length (renderedPages (Some 10) 1)) \<le> min (2 * PDF_RENDER_BUFFER + 1) 10
   \<and> int (length (renderedPages (Some 10) 7)) = 2 * PDF_RENDER_BUFFER + 1"
  using render_window_clamped [of PDF_RENDER_BUFFER 1 10]
    render_window_clamped [of PDF_RENDER_BUFFER 7 10]
  by (simp add: renderedPages_def PDF_RENDER_BUFFER_def upto.simps)

subsection \<open>Facts about the visibility resolver\<close>

lemma scan_result:
  "scan bp br m = (bp', br') \<Longrightarrow>
     br \<le> br' \<and> (\<forall>(q, r) \<in> set m. r \<le> br')
     \<and> ((bp', br') = (bp, br) \<or> (\<exists>p. bp' = Some p \<and> br < br' \<and> (p, br') \<in> set m))"
proof (induction bp br m arbitrary: bp' br' rule: scan.induct)
  case (1 bestPage bestRatio)
  then show ?case by simp
next
  case (2 bestPage bestRatio page ratio m)
  show ?case
  proof (cases "ratio > bestRatio")
    case True
    with "2.prems" have "scan (Some page) ratio m = (bp', br')" by simp
    from "2.IH"(1) [OF True this] True show ?thesis by fastforce
  next
    case False
    with "2.prems" have "scan bestPage bestRatio m = (bp', br')" by simp
    from "2.IH"(2) [OF False this] False show ?thesis by fastforce
  qed
qed

lemma scan_low:
  "\<forall>(q, r) \<in> set m. r \<le> c \<Longrightarrow> br \<le> c \<Longrightarrow> snd (scan bp br m) \<le> c"
  by (induction bp br m rule: scan.induct) auto

lemma commit_low:
  assumes "\<forall>(q, r) \<in> set (ratioMapRef s). r \<le> 6 / 10"
  shows "currentPage (commit s) = currentPage s"
proof -
  have "snd (scan None 0 (ratioMapRef s)) \<le> 6 / 10"
    using assms by (intro scan_low) auto
  then show ?thesis
    by (auto simp: commit_def Let_def split: prod.splits option.splits)
qed

lemma commit_high:
  assumes "\<exists>(q, r) \<in> set (ratioMapRef s). 6 / 10 < r"
  shows "\<exists>r. (currentPage (commit s), r) \<in> set (ratioMapRef s) \<and> 6 / 10 < r
           \<and> (\<forall>(q, r') \<in> set (ratioMapRef s). r' \<le> r)"
proof -
  obtain bp br where sc: "scan None 0 (ratioMapRef s) = (bp, br)"
    by (cases "scan None 0 (ratioMapRef s)")
  note res = scan_result [OF sc]
  from assms res have hi: "6 / 10 < br" by fastforce
  with res obtain p where p: "bp = Some p" "(p, br) \<in> set (ratioMapRef s)" by auto
  have "currentPage (commit s) = p"
    using sc hi p by (simp add: commit_def Let_def)
  with p hi res show ?thesis by blast
qed

lemma commit_frame:
  "ratioMapRef (commit s) = ratioMapRef s \<and> ioThrottleRef (commit s) = None
   \<and> numPages (commit s) = numPages s"
  by (auto simp: commit_def Let_def split: prod.splits option.splits)

lemma contested_run:
  "contested s evs \<Longrightarrow> currentPage (run s evs) = currentPage s"
proof (induction evs arbitrary: s)
  case Nil
  then show ?case by simp
next
  case (Cons e evs)
  show ?case
  proof (cases e)
    case (Batch now entries)
    with Cons show ?thesis by (simp add: observe_def Let_def)
  next
    case (TimerFire now)
    with Cons.prems have c: "contested (step s e) evs"
      and low: "due_at s now \<longrightarrow> list_all (\<lambda>(p, r). r \<le> 6 / 10) (ratioMapRef s)"
      by simp_all
    have "currentPage (step s e) = currentPage s"
      using low TimerFire commit_low [of s] by (auto simp: list_all_iff)
    with Cons.IH [OF c] show ?thesis by simp
  next
    case (Cleanup now)
    with Cons show ?thesis by simp
  qed
qed

text \<open>
  C1. When the timer callback runs, it scans the whole ratio map. If no stored ratio
  is above \<open>0.6\<close>, the current page stays as it was; if some stored ratio is above
  \<open>0.6\<close>, the current page becomes a page that holds the highest ratio of the map, and
  that ratio is above \<open>0.6\<close>. Hence over any run of events in which no stored ratio is
  above \<open>0.6\<close> whenever the timer fires, the current page never changes.
\<close>

theorem visibility_commit_rule:
  "((\<forall>(q, r) \<in> set (ratioMapRef s). r \<le> 6 / 10) \<longrightarrow>
      currentPage (commit s) = currentPage s)
   \<and> ((\<exists>(q, r) \<in> set (ratioMapRef s). 6 / 10 < r) \<longrightarrow>
        (\<exists>r. (currentPage (commit s), r) \<in> set (ratioMapRef s) \<and> 6 / 10 < r
           \<and> (\<forall>(q, r') \<in> set (ratioMapRef s). r' \<le> r)))
   \<and> (contested s evs \<longrightarrow> currentPage (run s evs) = currentPage s)"
proof (intro conjI impI)
  assume "\<forall>(q, r) \<in> set (ratioMapRef s). r \<le> 6 / 10"
  then show "currentPage (commit s) = currentPage s"
    by (rule commit_low)
next
  assume "\<exists>(q, r) \<in> set (ratioMapRef s). 6 / 10 < r"
  then show "\<exists>r. (currentPage (commit s), r) \<in> set (ratioMapRef s) \<and> 6 / 10 < r
           \<and> (\<forall>(q, r') \<in> set (ratioMapRef s). r' \<le> r)"
    by (rule commit_high)
next
  assume "contested s evs"
  then show "currentPage (run s evs) = currentPage s"
    by (rule contested_run)
qed

theorem visibility_commit_rule_witness:
  "contested (loaded_reader 10 4) oscillation
   \<and> currentPage (run (loaded_reader 10 4) oscillation) = 4
   \<and> currentPage (commit ((loaded_reader 10 4)
        \<lparr>ratioMapRef := [(4, 55 / 100), (5, 45 / 100)]\<rparr>)) = 4
   \<and> currentPage (commit ((loaded_reader 10 4)
        \<lparr>ratioMapRef := [(4, 3 / 10), (5, 7 / 10), (6, 7 / 10)]\<rparr>)) = 5"
  using visibility_commit_rule [of "loaded_reader 10 4" oscillation]
    visibility_commit_rule
      [of "(loaded_reader 10 4)\<lparr>ratioMapRef := [(4, 55 / 100), (5, 45 / 100)]\<rparr>" "[]"]
    visibility_commit_rule
      [of "(loaded_reader 10 4)\<lparr>ratioMapRef := [(4, 3 / 10), (5, 7 / 10), (6, 7 / 10)]\<rparr>" "[]"]
  by (simp add: loaded_reader_def oscillation_def initial_reader_def observing_def observe_def
      due_at_def commit_def Let_def)

lemma keys_put_ratio: "fst ` set (put_ratio p r m) = insert p (fst ` set m)"
  by (induction p r m rule: put_ratio.induct) auto

lemma keys_merge_entries:
  "fst ` set (merge_entries entries m) = fst ` set entries \<union> fst ` set m"
  by (induction entries m rule: merge_entries.induct) (auto simp: keys_put_ratio)

lemma keys_step: "fst ` set (ratioMapRef s) \<subseteq> fst ` set (ratioMapRef (step s e))"
  by (cases e) (auto simp: observe_def Let_def keys_merge_entries commit_frame)

lemma keys_run: "fst ` set (ratioMapRef s) \<subseteq> fst ` set (ratioMapRef (run s evs))"
proof (induction evs arbitrary: s)
  case Nil
  show ?case by simp
next
  case (Cons e evs)
  have "fst ` set (ratioMapRef s) \<subseteq> fst ` set (ratioMapRef (step s e))"
    by (rule keys_step)
  also have "\<dots> \<subseteq> fst ` set (ratioMapRef (run (step s e) evs))"
    by (rule Cons.IH)
  finally show ?case by simp
qed

lemma commit_strict_winner:
  assumes "(p, r) \<in> set (ratioMapRef s)" and "6 / 10 < r"
    and "\<forall>(q, r') \<in> set (ratioMapRef s). q \<noteq> p \<longrightarrow> r' < r"
  shows "currentPage (commit s) = p"
proof -
  from assms(1,2) have "\<exists>(q, r) \<in> set (ratioMapRef s). 6 / 10 < r" by blast
  from commit_high [OF this] obtain r' where
    w: "(currentPage (commit s), r') \<in> set (ratioMapRef s)"
    and top: "\<forall>(q, r'') \<in> set (ratioMapRef s). r'' \<le> r'" by blast
  from top assms(1) have "r \<le> r'" by blast
  with assms(3) w show ?thesis by fastforce
qed

text \<open>
  C2 (as stated it fails). On a 10-page document the observer first reports every
  page slot, so the map has the ten keys 1 to 10 while the pages 1, 2, 3 are rendered.
  The reader jumps to page 8, which wins the commit though it was a placeholder; the
  render window is now 6 to 10, page 1 has left it, and the map still has the entry
  of page 1. Back at the top, page 1 wins the next commit from outside the window.
\<close>

theorem ratio_map_purge_counterexample:
  "map fst (ratioMapRef (run (loaded_reader 10 1) first_report)) = [1, 2, 3, 4, 5, 6, 7, 8, 9, 10]
   \<and> renderedPages (Some 10) (currentPage (run (loaded_reader 10 1) first_report)) = [1, 2, 3]
   \<and> currentPage (run (loaded_reader 10 1) (first_report @ jump_to_8)) = 8
   \<and> renderedPages (Some 10) 8 = [6, 7, 8, 9, 10]
   \<and> map_of (ratioMapRef (run (loaded_reader 10 1) (first_report @ jump_to_8))) 1 = Some 0
   \<and> currentPage (run (loaded_reader 10 1) (first_report @ jump_to_8 @ back_to_1)) = 1"
  by (simp add: loaded_reader_def first_report_def jump_to_8_def back_to_1_def
      initial_reader_def observing_def observe_def due_at_def commit_def Let_def
      renderedPages_def PDF_RENDER_BUFFER_def window_of_upto upto.simps)

lemma observed_pages_all:
  "observed_pages s =
     (case numPages s of None \<Rightarrow> [] | Some n \<Rightarrow> if n = 0 then [] else [1..n])"
proof -
  have "map data_page (map (page_slot s) xs) = xs" for xs
    by (induction xs) (simp_all add: page_slot_def Let_def)
  then show ?thesis
    by (simp add: observed_pages_def page_slots_def split: option.splits)
qed

lemma rendered_observed:
  "set (renderedPages (numPages s) (currentPage s)) \<subseteq> set (observed_pages s)"
proof (cases "numPages s")
  case None
  then show ?thesis
    by (simp add: renderedPages_def window_of_def)
next
  case (Some n)
  show ?thesis
  proof (cases "n = 0")
    case True
    with Some show ?thesis
      by (simp add: renderedPages_def window_of_def)
  next
    case False
    with Some show ?thesis
      by (auto simp: renderedPages_def window_of_upto observed_pages_all)
  qed
qed

lemma numPages_step: "numPages (step s e) = numPages s"
  by (cases e) (simp_all add: observe_def Let_def commit_frame)

lemma keys_reported:
  "reported pages evs \<Longrightarrow>
   fst ` set (ratioMapRef (run s evs)) \<subseteq> fst ` set (ratioMapRef s) \<union> set pages"
proof (induction evs arbitrary: s)
  case Nil
  show ?case by simp
next
  case (Cons e evs)
  have one: "fst ` set (ratioMapRef (step s e)) \<subseteq> fst ` set (ratioMapRef s) \<union> set pages"
  proof (cases e)
    case (Batch now entries)
    with Cons.prems have "fst ` set entries \<subseteq> set pages"
      by (auto simp: list_all_iff)
    with Batch show ?thesis
      by (auto simp: observe_def Let_def keys_merge_entries)
  next
    case (TimerFire now)
    then show ?thesis
      by (simp add: commit_frame)
  next
    case (Cleanup now)
    then show ?thesis
      by simp
  qed
  have "reported pages evs"
    using Cons.prems by (cases e) simp_all
  from Cons.IH [OF this, of "step s e"] one show ?case
    by auto
qed

text \<open>
  C2 (amended). The ratio map is never purged, and it does not depend on the render
  window. Every page slot is observed, rendered or placeholder: the observed pages are
  all the pages \<open>1..numPages\<close>, the rendered ones among them, and when the batches
  report observed pages only, the keys of the map stay among the observed pages (and
  the keys the map had). A batch adds the pages it reports to the keys of the map, no
  event removes a key (so the keys only grow over a run, and the commit that moves the
  render window leaves the map as it is), and the commit ranges over all the entries:
  a page whose ratio is above \<open>0.6\<close> and above that of every other page becomes the
  current page, rendered or not.
\<close>

theorem ratio_map_never_purged:
  "observed_pages s =
     (case numPages s of None \<Rightarrow> [] | Some n \<Rightarrow> if n = 0 then [] else [1..n])
   \<and> set (renderedPages (numPages s) (currentPage s)) \<subseteq> set (observed_pages s)
   \<and> (reported (observed_pages s) evs \<longrightarrow>
        fst ` set (ratioMapRef (run s evs))
          \<subseteq> fst ` set (ratioMapRef s) \<union> set (observed_pages s))
   \<and> fst ` set (ratioMapRef (observe now entries s)) =
        fst ` set entries \<union> fst ` set (ratioMapRef s)
   \<and> fst ` set (ratioMapRef s) \<subseteq> fst ` set (ratioMapRef (run s evs))
   \<and> ratioMapRef (commit s) = ratioMapRef s
   \<and> ((p, r) \<in> set (ratioMapRef s) \<and> 6 / 10 < r
        \<and> (\<forall>(q, r') \<in> set (ratioMapRef s). q \<noteq> p \<longrightarrow> r' < r)
       \<longrightarrow> currentPage (commit s) = p)"
proof (intro conjI impI)
  show "observed_pages s =
      (case numPages s of None \<Rightarrow> [] | Some n \<Rightarrow> if n = 0 then [] else [1..n])"
    by (rule observed_pages_all)
  show "set (renderedPages (numPages s) (currentPage s)) \<subseteq> set (observed_pages s)"
    by (rule rendered_observed)
  show "fst ` set (ratioMapRef (observe now entries s)) =
      fst ` set entries \<union> fst ` set (ratioMapRef s)"
    by (simp add: observe_def Let_def keys_merge_entries)
  show "fst ` set (ratioMapRef s) \<subseteq> fst ` set (ratioMapRef (run s evs))"
    by (rule keys_run)
  show "ratioMapRef (commit s) = ratioMapRef s"
    by (simp add: commit_frame)
next
  assume "reported (observed_pages s) evs"
  then show "fst ` set (ratioMapRef (run s evs))
      \<subseteq> fst ` set (ratioMapRef s) \<union> set (observed_pages s)"
    by (rule keys_reported)
next
  assume "(p, r) \<in> set (ratioMapRef s) \<and> 6 / 10 < r
    \<and> (\<forall>(q, r') \<in> set (ratioMapRef s). q \<noteq> p \<longrightarrow> r' < r)"
  then show "currentPage (commit s) = p"
    using commit_strict_winner [of p r s] by blast
qed

theorem ratio_map_never_purged_witness:
  "(1, 1) \<in> set (ratioMapRef ((loaded_reader 10 8)\<lparr>ratioMapRef := [(1, 1), (8, 3 / 10)]\<rparr>))
   \<and> 1 \<notin> set (renderedPages (Some 10) 8)
   \<and> currentPage (commit ((loaded_reader 10 8)\<lparr>ratioMapRef := [(1, 1), (8, 3 / 10)]\<rparr>)) = 1
   \<and> {1, 8} \<subseteq> fst ` set (ratioMapRef (run ((loaded_reader 10 8)
        \<lparr>ratioMapRef := [(1, 1), (8, 3 / 10)]\<rparr>) jump_to_8))
   \<and> observed_pages (loaded_reader 10 8) = [1, 2, 3, 4, 5, 6, 7, 8, 9, 10]
   \<and> reported (observed_pages (loaded_reader 10 8)) jump_to_8
   \<and> fst ` set (ratioMapRef (run (loaded_reader 10 8) jump_to_8))
       \<subseteq> {1, 2, 3, 4, 5, 6, 7, 8, 9, 10}"
proof -
  note fresh = ratio_map_never_purged [of "loaded_reader 10 8" jump_to_8 0 "[]" 1 1]
  have pages: "numPages (loaded_reader 10 8) = Some 10"
    and empty: "ratioMapRef (loaded_reader 10 8) = []"
    by (simp_all add: loaded_reader_def initial_reader_def)
  have obs: "observed_pages (loaded_reader 10 8) = [1, 2, 3, 4, 5, 6, 7, 8, 9, 10]"
    using fresh [THEN conjunct1] by (simp add: pages upto.simps)
  have rep: "reported (observed_pages (loaded_reader 10 8)) jump_to_8"
    by (simp add: obs jump_to_8_def)
  from fresh [THEN conjunct2, THEN conjunct2, THEN conjunct1, THEN mp, OF rep]
  have keys: "fst ` set (ratioMapRef (run (loaded_reader 10 8) jump_to_8))
      \<subseteq> {1, 2, 3, 4, 5, 6, 7, 8, 9, 10}"
    by (simp add: empty obs)
  have old: "(1, 1) \<in> set (ratioMapRef ((loaded_reader 10 8)\<lparr>ratioMapRef := [(1, 1), (8, 3 / 10)]\<rparr>))
   \<and> 1 \<notin> set (renderedPages (Some 10) 8)
   \<and> currentPage (commit ((loaded_reader 10 8)\<lparr>ratioMapRef := [(1, 1), (8, 3 / 10)]\<rparr>)) = 1
   \<and> {1, 8} \<subseteq> fst ` set (ratioMapRef (run ((loaded_reader 10 8)
        \<lparr>ratioMapRef := [(1, 1), (8, 3 / 10)]\<rparr>) jump_to_8))"
    using ratio_map_never_purged
      [of "(loaded_reader 10 8)\<lparr>ratioMapRef := [(1, 1), (8, 3 / 10)]\<rparr>" jump_to_8 0 "[]" 1 1,
        THEN conjunct2, THEN conjunct2, THEN conjunct2]
    by (simp add: loaded_reader_def initial_reader_def renderedPages_def PDF_RENDER_BUFFER_def
        window_of_upto upto.simps)
  from old obs rep keys show ?thesis
    by (intro conjI) simp_all
qed

lemma step_timer_bound:
  assumes "\<forall>due. ioThrottleRef s = Some due \<longrightarrow> lo \<le> due" and "lo \<le> time_of e + 100"
  shows "\<forall>due. ioThrottleRef (step s e) = Some due \<longrightarrow> lo \<le> due"
proof (cases e)
  case (Batch t entries)
  show ?thesis
  proof (cases "observing s \<and> ioThrottleRef s = None")
    case True
    then have "ioThrottleRef (step s e) = Some (t + 100)"
      using Batch by (simp add: observe_def Let_def)
    with assms(2) Batch show ?thesis by simp
  next
    case False
    then have "ioThrottleRef (step s e) = ioThrottleRef s"
      using Batch by (auto simp: observe_def Let_def)
    with assms(1) show ?thesis by simp
  qed
next
  case (TimerFire t)
  have "ioThrottleRef (step s e) = None \<or> ioThrottleRef (step s e) = ioThrottleRef s"
    using TimerFire by (simp add: commit_frame)
  with assms(1) show ?thesis by auto
next
  case (Cleanup t)
  then show ?thesis by simp
qed

lemma decisions_spaced_aux:
  "chronological now evs \<Longrightarrow>
   \<forall>due. ioThrottleRef s = Some due \<longrightarrow> lo \<le> due \<Longrightarrow> lo \<le> now + 100 \<Longrightarrow>
   spaced (decisions s evs) \<and> (\<forall>t \<in> set (decisions s evs). lo \<le> t)"
proof (induction evs arbitrary: s now lo)
  case Nil
  show ?case by simp
next
  case (Cons e evs)
  from Cons.prems(1) have le: "now \<le> time_of e" and chr: "chronological (time_of e) evs"
    by simp_all
  have lo': "lo \<le> time_of e + 100"
    using Cons.prems(3) le by linarith
  note bound = step_timer_bound [OF Cons.prems(2) lo']
  note IH = Cons.IH [OF chr bound lo']
  show ?case
  proof (cases "\<exists>t. e = TimerFire t \<and> due_at s t")
    case False
    then have "decisions s (e # evs) = decisions (step s e) evs"
      by (cases e) simp_all
    with IH show ?thesis by simp
  next
    case True
    then obtain t where e: "e = TimerFire t" and due: "due_at s t"
      by blast
    have dec: "decisions s (e # evs) = t # decisions (step s e) evs"
      using e due by simp
    from due obtain d where "ioThrottleRef s = Some d" "d \<le> t"
      by (auto simp: due_at_def split: option.splits)
    with Cons.prems(2) have lot: "lo \<le> t"
      by fastforce
    have idle: "\<forall>due. ioThrottleRef (step s e) = Some due \<longrightarrow> t + 100 \<le> due"
      using e due by (simp add: commit_frame)
    have "t + 100 \<le> time_of e + 100"
      using e by simp
    from Cons.IH [OF chr idle this]
    have sp: "spaced (decisions (step s e) evs)"
      and far: "\<forall>u \<in> set (decisions (step s e) evs). t + 100 \<le> u"
      by simp_all
    have "spaced (t # decisions (step s e) evs)"
    proof (cases "decisions (step s e) evs")
      case Nil
      then show ?thesis by simp
    next
      case (Cons u us)
      with sp far show ?thesis by simp
    qed
    moreover have "\<forall>u \<in> set (t # decisions (step s e) evs). lo \<le> u"
      using far lot by auto
    ultimately show ?thesis
      unfolding dec by blast
  qed
qed

lemma decisions_spaced: "chronological now evs \<Longrightarrow> spaced (decisions s evs)"
  using decisions_spaced_aux [of now evs s 0] by simp

lemma decisions_bounded:
  "length (decisions s evs) \<le>
     (if ioThrottleRef s = None then 0 else 1) + length (filter is_batch evs)"
proof (induction evs arbitrary: s)
  case Nil
  show ?case by simp
next
  case (Cons e evs)
  show ?case
  proof (cases e)
    case (Batch t entries)
    with Cons [of "step s e"] show ?thesis
      by (auto simp: observe_def Let_def split: if_splits)
  next
    case (TimerFire t)
    with Cons [of "step s e"] show ?thesis
      by (auto simp: commit_frame due_at_def split: if_splits option.splits)
  next
    case (Cleanup t)
    with Cons [of "step s e"] show ?thesis
      by (auto split: if_splits)
  qed
qed

lemma decisions_caused_aux:
  "\<forall>due. ioThrottleRef s = Some due \<longrightarrow> (\<exists>b \<in> B. b + 100 = due) \<Longrightarrow>
   \<forall>d \<in> set (decisions s evs). \<exists>b \<in> B \<union> set (map time_of (filter is_batch evs)). b + 100 \<le> d"
proof (induction evs arbitrary: s B)
  case Nil
  show ?case by simp
next
  case (Cons e evs)
  show ?case
  proof (cases e)
    case (Batch t entries)
    have "\<forall>due. ioThrottleRef (step s e) = Some due \<longrightarrow> (\<exists>b \<in> insert t B. b + 100 = due)"
      using Cons.prems Batch by (auto simp: observe_def Let_def)
    from Cons.IH [OF this] Batch show ?thesis
      by simp
  next
    case (Cleanup t)
    have "\<forall>due. ioThrottleRef (step s e) = Some due \<longrightarrow> (\<exists>b \<in> B. b + 100 = due)"
      using Cleanup by simp
    from Cons.IH [OF this] Cleanup show ?thesis
      by simp
  next
    case (TimerFire t)
    have keep: "\<forall>due. ioThrottleRef (step s e) = Some due \<longrightarrow> (\<exists>b \<in> B. b + 100 = due)"
      using Cons.prems TimerFire by (simp add: commit_frame)
    note rest = Cons.IH [OF keep]
    show ?thesis
    proof (cases "due_at s t")
      case False
      with rest TimerFire show ?thesis by simp
    next
      case True
      then obtain due where "ioThrottleRef s = Some due" "due \<le> t"
        by (auto simp: due_at_def split: option.splits)
      with Cons.prems obtain b where "b \<in> B" "b + 100 \<le> t"
        by fastforce
      with rest True TimerFire show ?thesis
        by auto
    qed
  qed
qed

lemma decisions_caused:
  "ioThrottleRef s = None \<Longrightarrow>
   \<forall>d \<in> set (decisions s evs). \<exists>b \<in> set (map time_of (filter is_batch evs)). b + 100 \<le> d"
  using decisions_caused_aux [of s "{}" evs] by simp

text \<open>
  C5. A batch that arrives while the timer is pending leaves the timer as it is: no
  further commit is scheduled. Hence, over events in the order of their times, two
  decisions are at least 100 ms apart, so no window of 100 ms holds more than one. A
  decision needs a batch: there are no more decisions than batches (and one for a
  timer pending at the start); from an idle timer, every decision comes at least
  100 ms after the arrival of a batch of the run, and there is none at all when no
  batch arrives.
\<close>

theorem commit_throttle:
  "(ioThrottleRef s \<noteq> None \<longrightarrow> ioThrottleRef (observe t entries s) = ioThrottleRef s)
   \<and> (chronological now evs \<longrightarrow> spaced (decisions s evs))
   \<and> length (decisions s evs) \<le>
       (if ioThrottleRef s = None then 0 else 1) + length (filter is_batch evs)
   \<and> (ioThrottleRef s = None \<longrightarrow>
        (\<forall>d \<in> set (decisions s evs).
           \<exists>b \<in> set (map time_of (filter is_batch evs)). b + 100 \<le> d))
   \<and> (ioThrottleRef s = None \<and> filter is_batch evs = [] \<longrightarrow> decisions s evs = [])"
proof (intro conjI impI)
  assume "ioThrottleRef s \<noteq> None"
  then show "ioThrottleRef (observe t entries s) = ioThrottleRef s"
    by (simp add: observe_def Let_def)
next
  assume "chronological now evs"
  then show "spaced (decisions s evs)"
    by (rule decisions_spaced)
next
  show "length (decisions s evs) \<le>
      (if ioThrottleRef s = None then 0 else 1) + length (filter is_batch evs)"
    by (rule decisions_bounded)
next
  assume "ioThrottleRef s = None"
  then show "\<forall>d \<in> set (decisions s evs).
      \<exists>b \<in> set (map time_of (filter is_batch evs)). b + 100 \<le> d"
    by (rule decisions_caused)
next
  assume "ioThrottleRef s = None \<and> filter is_batch evs = []"
  then show "decisions s evs = []"
    using decisions_bounded [of s evs] by simp
qed

theorem commit_throttle_witness:
  "chronological 0 burst
   \<and> decisions (loaded_reader 10 1) burst = [100, 205]
   \<and> spaced (decisions (loaded_reader 10 1) burst)
   \<and> ioThrottleRef (observe 10 [(1, 9 / 10)] (run (loaded_reader 10 1) [Batch 0 [(1, 1)]]))
       = Some 100
   \<and> decisions (loaded_reader 10 1) [TimerFire 100, Cleanup 120, TimerFire 300] = []"
  using commit_throttle [of "loaded_reader 10 1" 0 "[]" 0 burst]
    commit_throttle [of "run (loaded_reader 10 1) [Batch 0 [(1, 1)]]" 10 "[(1, 9 / 10)]" 0 "[]"]
    commit_throttle [of "loaded_reader 10 1" 0 "[]" 0 "[TimerFire 100, Cleanup 120, TimerFire 300]"]
  by (simp add: loaded_reader_def burst_def initial_reader_def observing_def observe_def
      due_at_def commit_def Let_def)

subsection \<open>Facts about double arithmetic\<close>

lemma floor_numeral_quotient:
  "\<lfloor>numeral a / numeral b :: rat\<rfloor> = numeral a div numeral b"
  using floor_divide_of_int_eq [of "numeral a" "numeral b", where ?'a = rat] by simp

lemma ceiling_numeral_quotient:
  "\<lceil>numeral a / numeral b :: rat\<rceil> = - ((- numeral a) div numeral b)"
  using floor_divide_of_int_eq [of "- numeral a" "numeral b", where ?'a = rat]
  by (simp add: ceiling_def)

lemma floor_neg_numeral_quotient:
  "\<lfloor>- (numeral a / numeral b) :: rat\<rfloor> = (- numeral a) div numeral b"
  using floor_divide_of_int_eq [of "- numeral a" "numeral b", where ?'a = rat] by simp

lemma bitlen_numeral: "bitlen (numeral n) = bitlen (numeral n div 2) + 1"
  by (subst compute_bitlen) simp

lemma bitlen_one: "bitlen 1 = 1"
  by (subst compute_bitlen) simp

lemmas double_eval =
  to_double_def binary_exponent_def round_half_even_def pow2_def fl_def math_round_def Let_def
  floor_numeral_quotient floor_neg_numeral_quotient ceiling_numeral_quotient
  bitlen_numeral bitlen_one

lemma pow2_powi: "pow2 e = 2 powi e"
  by (simp add: pow2_def power_int_def inverse_eq_divide power_one_over)

lemma pow2_pos: "0 < pow2 e"
  by (simp add: pow2_powi)

lemma round_half_even_near: "\<bar>of_int (round_half_even q) - q\<bar> \<le> 1 / 2"
proof -
  have "of_int \<lfloor>q\<rfloor> \<le> q" and "q < of_int \<lfloor>q\<rfloor> + 1"
    by linarith+
  then show ?thesis
    unfolding round_half_even_def Let_def by (auto simp: abs_le_iff)
qed

lemma binary_exponent_bounds:
  assumes "0 < x"
  shows "pow2 (binary_exponent x) \<le> x \<and> x < pow2 (binary_exponent x + 1)"
proof (cases "1 \<le> x")
  case True
  then have f: "0 < \<lfloor>x\<rfloor>"
    by linarith
  from bitlen_bounds [OF f]
  have lo: "2 ^ nat (bitlen \<lfloor>x\<rfloor> - 1) \<le> \<lfloor>x\<rfloor>" and hi: "\<lfloor>x\<rfloor> < 2 ^ nat (bitlen \<lfloor>x\<rfloor>)"
    by simp_all
  have b1: "1 \<le> bitlen \<lfloor>x\<rfloor>"
    using f bitlen_eq_zero_iff [of "\<lfloor>x\<rfloor>"] bitlen_nonneg [of "\<lfloor>x\<rfloor>"] by linarith
  have "(2::rat) ^ nat (bitlen \<lfloor>x\<rfloor> - 1) = of_int (2 ^ nat (bitlen \<lfloor>x\<rfloor> - 1))"
    by simp
  also have "\<dots> \<le> of_int \<lfloor>x\<rfloor>"
    using lo by (simp only: of_int_le_iff)
  also have "\<dots> \<le> x"
    by linarith
  finally have low: "(2::rat) ^ nat (bitlen \<lfloor>x\<rfloor> - 1) \<le> x" .
  have "\<lfloor>x\<rfloor> + 1 \<le> 2 ^ nat (bitlen \<lfloor>x\<rfloor>)"
    using hi by linarith
  then have "of_int (\<lfloor>x\<rfloor> + 1) \<le> (of_int (2 ^ nat (bitlen \<lfloor>x\<rfloor>)) :: rat)"
    by (simp only: of_int_le_iff)
  then have "of_int \<lfloor>x\<rfloor> + 1 \<le> (2::rat) ^ nat (bitlen \<lfloor>x\<rfloor>)"
    by simp
  moreover have "x < of_int \<lfloor>x\<rfloor> + 1"
    by linarith
  ultimately have high: "x < (2::rat) ^ nat (bitlen \<lfloor>x\<rfloor>)"
    by linarith
  from True b1 low high show ?thesis
    by (simp add: binary_exponent_def pow2_def)
next
  case False
  with assms have x1: "x < 1" and inv: "1 < 1 / x"
    by simp_all
  define c where "c = \<lceil>1 / x\<rceil>"
  have c2: "2 \<le> c"
    using inv unfolding c_def by linarith
  then have pos: "0 < c - 1"
    by linarith
  define m where "m = bitlen (c - 1)"
  from bitlen_bounds [OF pos]
  have lo: "2 ^ nat (m - 1) \<le> c - 1" and hi: "c - 1 < 2 ^ nat m"
    unfolding m_def by simp_all
  have m1: "1 \<le> m"
    using pos bitlen_eq_zero_iff [of "c - 1"] bitlen_nonneg [of "c - 1"] unfolding m_def
    by linarith
  have "c \<le> 2 ^ nat m"
    using hi by linarith
  then have "of_int c \<le> (of_int (2 ^ nat m) :: rat)"
    by (simp only: of_int_le_iff)
  then have "of_int c \<le> (2::rat) ^ nat m"
    by simp
  moreover have "1 / x \<le> of_int c"
    unfolding c_def by linarith
  ultimately have "1 / x \<le> 2 ^ nat m"
    by linarith
  then have "1 \<le> 2 ^ nat m * x"
    using assms by (simp add: field_simps)
  then have low: "1 / 2 ^ nat m \<le> x"
    by (simp add: field_simps)
  have "(of_int (2 ^ nat (m - 1)) :: rat) \<le> of_int (c - 1)"
    using lo by (simp only: of_int_le_iff)
  then have "(2::rat) ^ nat (m - 1) \<le> of_int c - 1"
    by simp
  moreover have "of_int c - 1 < 1 / x"
    unfolding c_def by linarith
  ultimately have "(2::rat) ^ nat (m - 1) < 1 / x"
    by linarith
  then have "2 ^ nat (m - 1) * x < 1"
    using assms by (simp add: field_simps)
  then have high: "x < 1 / 2 ^ nat (m - 1)"
    by (simp add: field_simps)
  have exp: "binary_exponent x = - m"
    using False by (simp add: binary_exponent_def m_def c_def)
  have "pow2 (- m) = 1 / 2 ^ nat m"
    using m1 by (simp add: pow2_def)
  moreover have "pow2 (- m + 1) = 1 / 2 ^ nat (m - 1)"
  proof (cases "m = 1")
    case True
    then show ?thesis by (simp add: pow2_def)
  next
    case False
    with m1 have "\<not> 0 \<le> - m + 1" and "nat (- (- m + 1)) = nat (m - 1)"
      by simp_all
    then show ?thesis by (simp add: pow2_def)
  qed
  ultimately show ?thesis
    using low high by (simp add: exp)
qed

lemma to_double_error:
  assumes "x \<noteq> 0"
  shows "\<bar>to_double x - x\<bar> \<le> pow2 (max (binary_exponent \<bar>x\<bar>) (- 1022) - 52) / 2"
proof -
  define u where "u = pow2 (max (binary_exponent \<bar>x\<bar>) (- 1022) - 52)"
  have u: "0 < u"
    unfolding u_def by (rule pow2_pos)
  have td: "to_double x = of_int (round_half_even (x / u)) * u"
    using assms by (simp add: to_double_def Let_def u_def)
  have "to_double x - x = (of_int (round_half_even (x / u)) - x / u) * u"
    using u by (simp add: td field_simps)
  then have "\<bar>to_double x - x\<bar> = \<bar>of_int (round_half_even (x / u)) - x / u\<bar> * u"
    using u by (simp add: abs_mult)
  also have "\<dots> \<le> 1 / 2 * u"
    using round_half_even_near [of "x / u"] u by (intro mult_right_mono) simp_all
  finally show ?thesis
    by (simp add: u_def)
qed

lemma to_double_relative:
  assumes "pow2 (- 1022) \<le> \<bar>x\<bar>"
  shows "\<bar>to_double x - x\<bar> \<le> \<bar>x\<bar> / 2 ^ 53"
proof -
  have pos: "0 < \<bar>x\<bar>"
    using assms pow2_pos [of "- 1022"] by linarith
  then have x0: "x \<noteq> 0"
    by simp
  define e where "e = binary_exponent \<bar>x\<bar>"
  from binary_exponent_bounds [OF pos]
  have lo: "pow2 e \<le> \<bar>x\<bar>" and hi: "\<bar>x\<bar> < pow2 (e + 1)"
    unfolding e_def by simp_all
  have "(2::rat) powi (- 1022) < 2 powi (e + 1)"
    using assms hi by (simp add: pow2_powi)
  have "- 1022 < e + 1"
  proof (rule ccontr)
    assume "\<not> - 1022 < e + 1"
    then have "e + 1 \<le> - 1022"
      by simp
    then have "(2::rat) powi (e + 1) \<le> 2 powi (- 1022)"
      by (rule power_int_increasing) simp
    with \<open>(2::rat) powi (- 1022) < 2 powi (e + 1)\<close> show False
      by simp
  qed
  then have mx: "max e (- 1022) = e"
    by simp
  have "pow2 (e - 52) / 2 = pow2 e / 2 ^ 53"
    by (simp add: pow2_powi power_int_diff)
  with to_double_error [OF x0] have "\<bar>to_double x - x\<bar> \<le> pow2 e / 2 ^ 53"
    by (simp add: e_def [symmetric] mx)
  also have "\<dots> \<le> \<bar>x\<bar> / 2 ^ 53"
    using lo by (simp add: divide_right_mono)
  finally show ?thesis .
qed

lemma fl_finite: "\<bar>to_double x\<bar> < pow2 1024 \<Longrightarrow> fl x = Fin (to_double x)"
  by (auto simp: fl_def Let_def abs_less_iff)


lemma math_round_near: "\<bar>of_int (math_round x) - x\<bar> \<le> 1 / 2"
proof -
  have "of_int \<lfloor>x + 1 / 2\<rfloor> \<le> x + 1 / 2" and "x + 1 / 2 < of_int \<lfloor>x + 1 / 2\<rfloor> + 1"
    by linarith+
  then show ?thesis
    unfolding math_round_def by linarith
qed

subsection \<open>Facts about placeholders\<close>

text \<open>
  C9 (as stated it fails). With the fallback page size 612 by 792 and the initial
  scale 1.2, page 10 of a 10-page document opened at page 1 is outside the render
  window; its slot reserves 734 by 950 pixels, which is neither 612 nor 792 times the
  scale.
\<close>

theorem placeholder_counterexample:
  "10 \<notin> set (renderedPages (numPages (loaded_reader 10 1)) (currentPage (loaded_reader 10 1)))
   \<and> slot_width (page_slot (loaded_reader 10 1) 10) = Some (Fin 734)
   \<and> slot_height (page_slot (loaded_reader 10 1) 10) = Some (Fin 950)
   \<and> scale (loaded_reader 10 1) = 5404319552844595 / 4503599627370496
   \<and> width (baseDims (loaded_reader 10 1)) * scale (loaded_reader 10 1) \<noteq> 734
   \<and> height (baseDims (loaded_reader 10 1)) * scale (loaded_reader 10 1) \<noteq> 950"
  by (simp add: loaded_reader_def initial_reader_def page_slot_def placeholderW_def
      placeholderH_def renderedPages_def PDF_RENDER_BUFFER_def window_of_upto upto.simps
      double_eval)

text \<open>
  C9 (amended). For every page outside the render window, at every scale, the slot
  mounts no page and reserves \<^verbatim>\<open>Math.round(width * scale)\<close> by
  \<^verbatim>\<open>Math.round(height * scale)\<close> pixels of the reference size, the products being
  those of doubles. Short of an overflow, each is the whole number nearest to the
  double product (the larger of two equally near), hence within half a pixel of it;
  and the double product is the exact product rounded to the nearest double, within
  the fraction \<open>1 / 2 ^ 53\<close> of it (for a product not below the least normal double).
\<close>

theorem placeholder_size:
  assumes "pageNum \<notin> set (renderedPages (numPages s) (currentPage s))"
  shows "slot_page (page_slot s pageNum) = None
    \<and> slot_width (page_slot s pageNum) =
        Some (js_round (js_mul (Fin (width (baseDims s))) (Fin (scale s))))
    \<and> slot_height (page_slot s pageNum) =
        Some (js_round (js_mul (Fin (height (baseDims s))) (Fin (scale s))))
    \<and> (\<bar>to_double (width (baseDims s) * scale s)\<bar> < pow2 1024 \<longrightarrow>
         slot_width (page_slot s pageNum) =
           Some (Fin (of_int \<lfloor>to_double (width (baseDims s) * scale s) + 1 / 2\<rfloor>))
         \<and> \<bar>of_int \<lfloor>to_double (width (baseDims s) * scale s) + 1 / 2\<rfloor>
              - to_double (width (baseDims s) * scale s)\<bar> \<le> 1 / 2)
    \<and> (\<bar>to_double (height (baseDims s) * scale s)\<bar> < pow2 1024 \<longrightarrow>
         slot_height (page_slot s pageNum) =
           Some (Fin (of_int \<lfloor>to_double (height (baseDims s) * scale s) + 1 / 2\<rfloor>))
         \<and> \<bar>of_int \<lfloor>to_double (height (baseDims s) * scale s) + 1 / 2\<rfloor>
              - to_double (height (baseDims s) * scale s)\<bar> \<le> 1 / 2)
    \<and> (pow2 (- 1022) \<le> \<bar>width (baseDims s) * scale s\<bar> \<longrightarrow>
         \<bar>to_double (width (baseDims s) * scale s) - width (baseDims s) * scale s\<bar>
           \<le> \<bar>width (baseDims s) * scale s\<bar> / 2 ^ 53)
    \<and> (pow2 (- 1022) \<le> \<bar>height (baseDims s) * scale s\<bar> \<longrightarrow>
         \<bar>to_double (height (baseDims s) * scale s) - height (baseDims s) * scale s\<bar>
           \<le> \<bar>height (baseDims s) * scale s\<bar> / 2 ^ 53)"
proof -
  have slot: "slot_page (page_slot s pageNum) = None
    \<and> slot_width (page_slot s pageNum) =
        Some (js_round (js_mul (Fin (width (baseDims s))) (Fin (scale s))))
    \<and> slot_height (page_slot s pageNum) =
        Some (js_round (js_mul (Fin (height (baseDims s))) (Fin (scale s))))"
    using assms by (simp add: page_slot_def placeholderW_def placeholderH_def)
  have rounded: "\<bar>to_double x\<bar> < pow2 1024 \<longrightarrow>
      js_round (js_mul (Fin a) (Fin b)) = Fin (of_int \<lfloor>to_double x + 1 / 2\<rfloor>)
      \<and> \<bar>of_int \<lfloor>to_double x + 1 / 2\<rfloor> - to_double x\<bar> \<le> 1 / 2"
    if "x = a * b" for x a b
    using that math_round_near [of "to_double x"] by (simp add: fl_finite math_round_def)
  have w: "\<bar>to_double (width (baseDims s) * scale s)\<bar> < pow2 1024 \<longrightarrow>
         slot_width (page_slot s pageNum) =
           Some (Fin (of_int \<lfloor>to_double (width (baseDims s) * scale s) + 1 / 2\<rfloor>))
         \<and> \<bar>of_int \<lfloor>to_double (width (baseDims s) * scale s) + 1 / 2\<rfloor>
              - to_double (width (baseDims s) * scale s)\<bar> \<le> 1 / 2"
    using slot rounded [OF refl, of "width (baseDims s)" "scale s"] by simp
  have h: "\<bar>to_double (height (baseDims s) * scale s)\<bar> < pow2 1024 \<longrightarrow>
         slot_height (page_slot s pageNum) =
           Some (Fin (of_int \<lfloor>to_double (height (baseDims s) * scale s) + 1 / 2\<rfloor>))
         \<and> \<bar>of_int \<lfloor>to_double (height (baseDims s) * scale s) + 1 / 2\<rfloor>
              - to_double (height (baseDims s) * scale s)\<bar> \<le> 1 / 2"
    using slot rounded [OF refl, of "height (baseDims s)" "scale s"] by simp
  have we: "pow2 (- 1022) \<le> \<bar>width (baseDims s) * scale s\<bar> \<longrightarrow>
         \<bar>to_double (width (baseDims s) * scale s) - width (baseDims s) * scale s\<bar>
           \<le> \<bar>width (baseDims s) * scale s\<bar> / 2 ^ 53"
    using to_double_relative [of "width (baseDims s) * scale s"] by blast
  have he: "pow2 (- 1022) \<le> \<bar>height (baseDims s) * scale s\<bar> \<longrightarrow>
         \<bar>to_double (height (baseDims s) * scale s) - height (baseDims s) * scale s\<bar>
           \<le> \<bar>height (baseDims s) * scale s\<bar> / 2 ^ 53"
    using to_double_relative [of "height (baseDims s) * scale s"] by blast
  from slot w h we he show ?thesis
    by (intro conjI) simp_all
qed

theorem placeholder_size_witness:
  "slot_width (page_slot (loaded_reader 10 7) 2) = Some (Fin 734)
   \<and> slot_height (page_slot (loaded_reader 10 7) 2) = Some (Fin 950)
   \<and> slot_page (page_slot (loaded_reader 10 7) 2) = None
   \<and> scale small_page_reader = 3152519739159347 / 4503599627370496
   \<and> slot_width (page_slot small_page_reader 9) = Some (Fin 451)
   \<and> slot_height (page_slot small_page_reader 9) = Some (Fin 599)"
proof -
  have big: "2 \<notin> set (renderedPages (numPages (loaded_reader 10 7)) (currentPage (loaded_reader 10 7)))"
    by (simp add: loaded_reader_def initial_reader_def renderedPages_def
        PDF_RENDER_BUFFER_def window_of_upto upto.simps)
  have sc: "scale small_page_reader = 3152519739159347 / 4503599627370496"
    by (simp add: small_page_reader_def initial_reader_def zoom_in_def zoom_out_def
        toFixed1_def double_eval)
  have st: "numPages small_page_reader = Some 10" "currentPage small_page_reader = 1"
    "baseDims small_page_reader = \<lparr>width = 645, height = 855\<rparr>"
    by (simp_all add: small_page_reader_def initial_reader_def zoom_in_def zoom_out_def)
  have small: "9 \<notin> set (renderedPages (numPages small_page_reader) (currentPage small_page_reader))"
    by (simp add: st renderedPages_def PDF_RENDER_BUFFER_def window_of_upto upto.simps)
  have a: "slot_width (page_slot (loaded_reader 10 7) 2) = Some (Fin 734)
      \<and> slot_height (page_slot (loaded_reader 10 7) 2) = Some (Fin 950)
      \<and> slot_page (page_slot (loaded_reader 10 7) 2) = None"
    using placeholder_size [OF big]
    by (simp add: loaded_reader_def initial_reader_def double_eval)
  have b: "slot_width (page_slot small_page_reader 9) = Some (Fin 451)
      \<and> slot_height (page_slot small_page_reader 9) = Some (Fin 599)"
    using placeholder_size [OF small]
    by (simp add: st sc double_eval)
  from a sc b show ?thesis
    by (intro conjI) simp_all
qed

subsection \<open>Facts about sticky notes\<close>

text \<open>
  C6. A note whose stored percentages are the finite numbers \<open>x\<close> and \<open>y\<close> is
  styled at \<open>x\<close> percent from the left and \<open>y\<close> percent from the top, whatever the
  page size; on a page rendered \<open>w\<close> by \<open>h\<close> this is the pixel position
  \<open>(x / 100 * w, y / 100 * h)\<close>, and on a page \<open>k\<close> times as large it is \<open>k\<close> times
  that position. Zooming in or out leaves the stored notes as they are, and with them
  the notes of every page slot and their styles.
\<close>

theorem sticky_note_zoom_invariance:
  assumes "xPct n = Fin x" and "yPct n = Fin y"
  shows "position_style n = \<lparr>left_pct = Fin x, top_pct = Fin y\<rparr>
   \<and> pixel_position n rendered =
       (Some (x / 100 * width rendered), Some (y / 100 * height rendered))
   \<and> pixel_position n \<lparr>width = k * width rendered, height = k * height rendered\<rparr> =
       (Some (k * (x / 100 * width rendered)), Some (k * (y / 100 * height rendered)))
   \<and> stickyNotes (zoom_in s) = stickyNotes s
   \<and> stickyNotes (zoom_out s) = stickyNotes s
   \<and> map position_style (slot_notes (page_slot (zoom_in s) pageNum)) =
       map position_style (slot_notes (page_slot s pageNum))
   \<and> map position_style (slot_notes (page_slot (zoom_out s) pageNum)) =
       map position_style (slot_notes (page_slot s pageNum))"
proof -
  have style: "position_style n = \<lparr>left_pct = Fin x, top_pct = Fin y\<rparr>"
    using assms by (simp add: position_style_def)
  have pixel: "pixel_position n r =
      (Some (x / 100 * width r), Some (y / 100 * height r))" for r
    by (simp add: pixel_position_def css_percentage_def style)
  have scaled: "pixel_position n \<lparr>width = k * width rendered, height = k * height rendered\<rparr> =
      (Some (k * (x / 100 * width rendered)), Some (k * (y / 100 * height rendered)))"
    by (simp add: pixel)
  have kept: "stickyNotes (zoom_in s) = stickyNotes s" "stickyNotes (zoom_out s) = stickyNotes s"
    by (simp_all add: zoom_in_def zoom_out_def)
  have slots: "slot_notes (page_slot (zoom_in s) pageNum) = slot_notes (page_slot s pageNum)"
    "slot_notes (page_slot (zoom_out s) pageNum) = slot_notes (page_slot s pageNum)"
    by (simp_all add: page_slot_def Let_def kept)
  from style pixel [of rendered] scaled kept slots show ?thesis
    by (intro conjI) simp_all
qed

theorem sticky_note_zoom_invariance_witness:
  "pixel_position example_note \<lparr>width = 600, height = 900\<rparr> = (Some 60, Some 180)
   \<and> pixel_position example_note \<lparr>width = 1200, height = 1800\<rparr> = (Some 120, Some 360)
   \<and> position_style example_note = \<lparr>left_pct = Fin 10, top_pct = Fin 20\<rparr>"
  using sticky_note_zoom_invariance [of example_note 10 20 "\<lparr>width = 600, height = 900\<rparr>" 2]
  by (simp add: example_note_def)









lemma spread_frame:
  "note_id (spread n c) = note_id n \<and> note_page (spread n c) = note_page n
   \<and> (ch_xPct c = None \<longrightarrow> xPct (spread n c) = xPct n)
   \<and> (ch_yPct c = None \<longrightarrow> yPct (spread n c) = yPct n)
   \<and> (ch_content c = None \<longrightarrow> content (spread n c) = content n)"
  by (simp add: spread_def)

text \<open>
  C10. \<^verbatim>\<open>updateNote\<close> keeps the number and order of the notes, and the id and
  page of each. A change without a content key (a drag sends none) keeps every
  content; a change without position keys (a save sends none) keeps every \<open>xPct\<close>
  and \<open>yPct\<close>. A note whose id is not the updated one is unchanged.
\<close>

theorem note_update_frame:
  "length (fst (updateNote i c ns)) = length ns
   \<and> (\<forall>k < length ns.
        note_id (fst (updateNote i c ns) ! k) = note_id (ns ! k)
        \<and> note_page (fst (updateNote i c ns) ! k) = note_page (ns ! k)
        \<and> (ch_content c = None \<longrightarrow> content (fst (updateNote i c ns) ! k) = content (ns ! k))
        \<and> (ch_xPct c = None \<longrightarrow> xPct (fst (updateNote i c ns) ! k) = xPct (ns ! k))
        \<and> (ch_yPct c = None \<longrightarrow> yPct (fst (updateNote i c ns) ! k) = yPct (ns ! k))
        \<and> (note_id (ns ! k) \<noteq> i \<longrightarrow> fst (updateNote i c ns) ! k = ns ! k))
   \<and> ch_content (onMouseMove startMouseX startMouseY startXPct startYPct clientX clientY rect) = None
   \<and> ch_xPct (handleSave draft) = None \<and> ch_yPct (handleSave draft) = None"
proof -
  have len: "length (fst (updateNote i c ns)) = length ns"
    by (simp add: updateNote_def)
  have each: "\<forall>k < length ns.
        note_id (fst (updateNote i c ns) ! k) = note_id (ns ! k)
        \<and> note_page (fst (updateNote i c ns) ! k) = note_page (ns ! k)
        \<and> (ch_content c = None \<longrightarrow> content (fst (updateNote i c ns) ! k) = content (ns ! k))
        \<and> (ch_xPct c = None \<longrightarrow> xPct (fst (updateNote i c ns) ! k) = xPct (ns ! k))
        \<and> (ch_yPct c = None \<longrightarrow> yPct (fst (updateNote i c ns) ! k) = yPct (ns ! k))
        \<and> (note_id (ns ! k) \<noteq> i \<longrightarrow> fst (updateNote i c ns) ! k = ns ! k)"
  proof (intro allI impI)
    fix k assume k: "k < length ns"
    then have nth: "fst (updateNote i c ns) ! k =
        (if note_id (ns ! k) = i then spread (ns ! k) c else ns ! k)"
      by (simp add: updateNote_def)
    show "note_id (fst (updateNote i c ns) ! k) = note_id (ns ! k)
        \<and> note_page (fst (updateNote i c ns) ! k) = note_page (ns ! k)
        \<and> (ch_content c = None \<longrightarrow> content (fst (updateNote i c ns) ! k) = content (ns ! k))
        \<and> (ch_xPct c = None \<longrightarrow> xPct (fst (updateNote i c ns) ! k) = xPct (ns ! k))
        \<and> (ch_yPct c = None \<longrightarrow> yPct (fst (updateNote i c ns) ! k) = yPct (ns ! k))
        \<and> (note_id (ns ! k) \<noteq> i \<longrightarrow> fst (updateNote i c ns) ! k = ns ! k)"
      unfolding nth using spread_frame [of "ns ! k" c] by simp
  qed
  have drag: "ch_content (onMouseMove startMouseX startMouseY startXPct startYPct clientX clientY rect) = None"
    by (simp add: onMouseMove_def Let_def)
  have save: "ch_xPct (handleSave draft) = None \<and> ch_yPct (handleSave draft) = None"
    by (simp add: handleSave_def)
  from len each drag save show ?thesis
    by blast
qed

theorem note_update_frame_witness:
  "fst (updateNote ''a'' (handleSave ''second'') example_notes) =
     [\<lparr>note_id = ''a'', note_page = 3, xPct = Fin 10, yPct = Fin 20, content = ''second''\<rparr>,
      \<lparr>note_id = ''b'', note_page = 3, xPct = Fin 5, yPct = Fin 5, content = ''''\<rparr>]
   \<and> fst (updateNote ''a''
        (onMouseMove 100 100 (Fin 10) (Fin 20) 160 10 \<lparr>width = 600, height = 900\<rparr>)
        example_notes) =
     [\<lparr>note_id = ''a'', note_page = 3, xPct = Fin 20, yPct = Fin 10, content = ''first''\<rparr>,
      \<lparr>note_id = ''b'', note_page = 3, xPct = Fin 5, yPct = Fin 5, content = ''''\<rparr>]"
  using note_update_frame [of "''a''" "handleSave ''second''" example_notes]
    note_update_frame [of "''a''"
      "onMouseMove 100 100 (Fin 10) (Fin 20) 160 10 \<lparr>width = 600, height = 900\<rparr>" example_notes]
  by (simp add: updateNote_def example_notes_def handleSave_def onMouseMove_def spread_def
      inf_of_def double_eval)

subsection \<open>Facts about bookmarks\<close>

lemma toggle_set:
  "set (toggleBookmark p bs) = (if p \<in> set bs then set bs - {p} else insert p (set bs))"
  by (auto simp: toggleBookmark_def)

lemma toggle_sorted: "sorted bs \<Longrightarrow> sorted (toggleBookmark p bs)"
  by (simp add: toggleBookmark_def sorted_wrt_filter)

lemma toggle_distinct: "distinct bs \<Longrightarrow> distinct (toggleBookmark p bs)"
  by (simp add: toggleBookmark_def)

lemma toggles_sorted_distinct:
  "sorted bs \<and> distinct bs \<Longrightarrow>
   sorted (foldl (\<lambda>bs p. toggleBookmark p bs) bs ps)
   \<and> distinct (foldl (\<lambda>bs p. toggleBookmark p bs) bs ps)"
  by (induction ps arbitrary: bs) (simp_all add: toggle_sorted toggle_distinct)

lemma toggle_requests_absent:
  assumes "p \<notin> set bs" and "(case bm b of None \<Rightarrow> [] | Some ps \<Rightarrow> ps) = bs"
  shows "snd (updateBookmarks u b (toggleBookmark p) bm) = [InsertBookmark u b p]"
proof -
  have "filter (\<lambda>q. q \<notin> set bs) (sort (bs @ [p])) = sort (filter (\<lambda>q. q \<notin> set bs) (bs @ [p]))"
    by (simp add: filter_sort)
  also have "filter (\<lambda>q. q \<notin> set bs) (bs @ [p]) = [p]"
    using assms(1) by simp
  finally have added: "filter (\<lambda>q. q \<notin> set bs) (sort (bs @ [p])) = [p]"
    by simp
  have removed: "filter (\<lambda>q. q \<notin> set (sort (bs @ [p]))) bs = []"
    by (simp add: filter_empty_conv)
  have new: "toggleBookmark p bs = sort (bs @ [p])"
    using assms(1) by (simp add: toggleBookmark_def)
  show ?thesis
    using assms(2) added removed by (simp add: updateBookmarks_def Let_def new)
qed

lemma toggle_requests_present:
  assumes "p \<in> set bs" and "distinct bs"
    and "(case bm b of None \<Rightarrow> [] | Some ps \<Rightarrow> ps) = bs"
  shows "snd (updateBookmarks u b (toggleBookmark p) bm) = [DeleteBookmark b p]"
proof -
  have added: "filter (\<lambda>q. q \<notin> set bs) (filter (\<lambda>q. q \<noteq> p) bs) = []"
    by (simp add: filter_empty_conv)
  have "filter (\<lambda>q. q \<notin> set (filter (\<lambda>q. q \<noteq> p) bs)) bs = filter (\<lambda>q. q = p) bs"
    by (rule filter_cong) auto
  also have "filter (\<lambda>q. q = p) bs = [p]"
    using assms(1,2) by (induction bs) (auto simp: filter_empty_conv)
  finally have removed: "filter (\<lambda>q. q \<notin> set (filter (\<lambda>q. q \<noteq> p) bs)) bs = [p]" .
  have new: "toggleBookmark p bs = filter (\<lambda>q. q \<noteq> p) bs"
    using assms(1) by (simp add: toggleBookmark_def)
  show ?thesis
    using assms(3) added removed by (simp add: updateBookmarks_def Let_def new)
qed

text \<open>
  C8. Toggling a page that is bookmarked removes it, toggling one that is not adds
  it and sorts the sequence, and a sorted sequence stays sorted under a toggle or a
  removal (so any sequence of toggles from the empty sequence is sorted). Toggling a page twice from the empty sequence gives the empty
  sequence. \<^verbatim>\<open>updateBookmarks\<close> requests an insert for exactly the pages of the new
  sequence that are not in the old one and a delete for exactly the pages of the
  old one that are not in the new one: one insert for a toggle that adds, one delete
  for a toggle that removes (from a duplicate-free sequence), so one insert and one
  delete for the double toggle.
\<close>

theorem bookmark_toggle:
  "(p \<in> set bs \<longrightarrow> set (toggleBookmark p bs) = set bs - {p})
   \<and> (p \<notin> set bs \<longrightarrow> set (toggleBookmark p bs) = insert p (set bs))
   \<and> (p \<notin> set bs \<longrightarrow> sorted (toggleBookmark p bs))
   \<and> (sorted bs \<longrightarrow> sorted (toggleBookmark p bs) \<and> sorted (removeBookmark p bs))
   \<and> sorted (foldl (\<lambda>bs p. toggleBookmark p bs) [] ps)
   \<and> toggleBookmark p (toggleBookmark p []) = []
   \<and> snd (updateBookmarks u b upd bm) =
       map (InsertBookmark u b)
         (filter (\<lambda>q. q \<notin> set (case bm b of None \<Rightarrow> [] | Some ps \<Rightarrow> ps))
            (upd (case bm b of None \<Rightarrow> [] | Some ps \<Rightarrow> ps)))
       @ map (DeleteBookmark b)
         (filter (\<lambda>q. q \<notin> set (upd (case bm b of None \<Rightarrow> [] | Some ps \<Rightarrow> ps)))
            (case bm b of None \<Rightarrow> [] | Some ps \<Rightarrow> ps))
   \<and> (p \<notin> set bs \<and> (case bm b of None \<Rightarrow> [] | Some ps \<Rightarrow> ps) = bs \<longrightarrow>
        snd (updateBookmarks u b (toggleBookmark p) bm) = [InsertBookmark u b p])
   \<and> (p \<in> set bs \<and> distinct bs \<and> (case bm b of None \<Rightarrow> [] | Some ps \<Rightarrow> ps) = bs \<longrightarrow>
        snd (updateBookmarks u b (toggleBookmark p) bm) = [DeleteBookmark b p])
   \<and> fst (updateBookmarks u b (toggleBookmark p) Map.empty) b = Some [p]
   \<and> fst (updateBookmarks u b (toggleBookmark p)
        (fst (updateBookmarks u b (toggleBookmark p) Map.empty))) b = Some []
   \<and> snd (updateBookmarks u b (toggleBookmark p) Map.empty)
       @ snd (updateBookmarks u b (toggleBookmark p)
           (fst (updateBookmarks u b (toggleBookmark p) Map.empty)))
       = [InsertBookmark u b p, DeleteBookmark b p]"
proof -
  have s1: "p \<in> set bs \<longrightarrow> set (toggleBookmark p bs) = set bs - {p}"
    by (simp add: toggle_set)
  have s2: "p \<notin> set bs \<longrightarrow> set (toggleBookmark p bs) = insert p (set bs)"
    by (simp add: toggle_set)
  have s3: "p \<notin> set bs \<longrightarrow> sorted (toggleBookmark p bs)"
    by (simp add: toggleBookmark_def)
  have s3': "sorted bs \<longrightarrow> sorted (toggleBookmark p bs) \<and> sorted (removeBookmark p bs)"
    by (simp add: toggle_sorted removeBookmark_def sorted_wrt_filter)
  have s4: "sorted (foldl (\<lambda>bs p. toggleBookmark p bs) [] ps)"
    using toggles_sorted_distinct [of "[]" ps] by simp
  have s5: "toggleBookmark p (toggleBookmark p []) = []"
    by (simp add: toggleBookmark_def)
  have s6: "snd (updateBookmarks u b upd bm) =
       map (InsertBookmark u b)
         (filter (\<lambda>q. q \<notin> set (case bm b of None \<Rightarrow> [] | Some ps \<Rightarrow> ps))
            (upd (case bm b of None \<Rightarrow> [] | Some ps \<Rightarrow> ps)))
       @ map (DeleteBookmark b)
         (filter (\<lambda>q. q \<notin> set (upd (case bm b of None \<Rightarrow> [] | Some ps \<Rightarrow> ps)))
            (case bm b of None \<Rightarrow> [] | Some ps \<Rightarrow> ps))"
    by (simp add: updateBookmarks_def Let_def)
  have s7: "p \<notin> set bs \<and> (case bm b of None \<Rightarrow> [] | Some ps \<Rightarrow> ps) = bs \<longrightarrow>
        snd (updateBookmarks u b (toggleBookmark p) bm) = [InsertBookmark u b p]"
    using toggle_requests_absent [of p bs bm b u] by blast
  have s8: "p \<in> set bs \<and> distinct bs \<and> (case bm b of None \<Rightarrow> [] | Some ps \<Rightarrow> ps) = bs \<longrightarrow>
        snd (updateBookmarks u b (toggleBookmark p) bm) = [DeleteBookmark b p]"
    using toggle_requests_present [of p bs bm b u] by blast
  have first: "updateBookmarks u b (toggleBookmark p) Map.empty =
      (Map.empty(b \<mapsto> [p]), [InsertBookmark u b p])"
    by (simp add: updateBookmarks_def Let_def toggleBookmark_def)
  have second: "updateBookmarks u b (toggleBookmark p) (Map.empty(b \<mapsto> [p])) =
      ((Map.empty(b \<mapsto> [p]))(b \<mapsto> []), [DeleteBookmark b p])"
    by (simp add: updateBookmarks_def Let_def toggleBookmark_def)
  have s9: "fst (updateBookmarks u b (toggleBookmark p) Map.empty) b = Some [p]"
    by (simp add: first)
  have s10: "fst (updateBookmarks u b (toggleBookmark p)
        (fst (updateBookmarks u b (toggleBookmark p) Map.empty))) b = Some []"
    by (simp add: first second)
  have s11: "snd (updateBookmarks u b (toggleBookmark p) Map.empty)
       @ snd (updateBookmarks u b (toggleBookmark p)
           (fst (updateBookmarks u b (toggleBookmark p) Map.empty)))
       = [InsertBookmark u b p, DeleteBookmark b p]"
    by (simp add: first second)
  from s1 s2 s3 s3' s4 s5 s6 s7 s8 s9 s10 s11 show ?thesis
    by (intro conjI)
qed

theorem bookmark_toggle_witness:
  "toggleBookmark 5 [2, 9] = [2, 5, 9]
   \<and> toggleBookmark 5 [2, 5, 9] = [2, 9]
   \<and> snd (updateBookmarks ''u'' ''b'' (toggleBookmark 5) [''b'' \<mapsto> [2, 9]])
       = [InsertBookmark ''u'' ''b'' 5]
   \<and> snd (updateBookmarks ''u'' ''b'' (toggleBookmark 5) [''b'' \<mapsto> [2, 5, 9]])
       = [DeleteBookmark ''b'' 5]
   \<and> toggleBookmark 5 (toggleBookmark 5 []) = []"
  using bookmark_toggle [of 5 "[2, 9]" "[]" "''u''" "''b''" id "[''b'' \<mapsto> [2, 9]]"]
    bookmark_toggle [of 5 "[2, 5, 9]" "[]" "''u''" "''b''" id "[''b'' \<mapsto> [2, 5, 9]]"]
  by (simp add: toggleBookmark_def)

end
